theory Spec2Isabelle
  imports Main "HOL-Library.Sublist"
begin

section \<open>Strings\<close>

text \<open>
  A JavaScript string is a sequence of UTF-16 code units. The embedding uses HOL's
  \<open>string\<close>, whose characters are the code units 0 to 255, so it covers the texts whose
  code units lie in the Latin-1 range; \<open>length\<close>, \<open>take\<close> and \<open>drop\<close> count code units as
  \<open>length\<close>, \<open>substring\<close> and \<open>slice\<close> do.
\<close>

definition isSpace :: "char \<Rightarrow> bool" where
  \<comment> \<open>The class \<open>\s\<close> and the characters \<open>trim()\<close> strips, below 256:
      TAB, LF, VT, FF, CR, SPACE and NBSP.\<close>
  "isSpace c = (of_char c \<in> {9, 10, 11, 12, 13, 32, 160 :: nat})"

definition isLowerAlnum :: "char \<Rightarrow> bool" where
  \<comment> \<open>The class \<open>[a-z0-9]\<close>.\<close>
  "isLowerAlnum c =
     (let n = of_char c :: nat in (97 \<le> n \<and> n \<le> 122) \<or> (48 \<le> n \<and> n \<le> 57))"

definition toLowerChar :: "char \<Rightarrow> char" where
  \<comment> \<open>\<open>toLowerCase()\<close> on one code unit below 256: A-Z and the Latin-1 capitals.\<close>
  "toLowerChar c =
     (let n = of_char c :: nat
      in if (65 \<le> n \<and> n \<le> 90) \<or> (192 \<le> n \<and> n \<le> 222 \<and> n \<noteq> 215)
         then char_of (n + 32) else c)"

definition toLowerCase :: "string \<Rightarrow> string" where
  "toLowerCase s = map toLowerChar s"

definition trim :: "string \<Rightarrow> string" where
  "trim s = rev (dropWhile isSpace (rev (dropWhile isSpace s)))"

definition substring0 :: "nat \<Rightarrow> string \<Rightarrow> string" where
  \<comment> \<open>\<open>s.substring(0, n)\<close>\<close>
  "substring0 n s = take n s"

fun splitOn :: "char \<Rightarrow> string \<Rightarrow> string list" where
  \<comment> \<open>\<open>s.split(c)\<close> for a one-character separator: never the empty list.\<close>
  "splitOn c [] = [Nil]"
| "splitOn c (x # xs) =
     (if x = c then [] # splitOn c xs
      else (case splitOn c xs of [] \<Rightarrow> [x # Nil] | s # ss \<Rightarrow> (x # s) # ss))"

fun joinWith :: "string \<Rightarrow> string list \<Rightarrow> string" where
  \<comment> \<open>\<open>xs.join(sep)\<close>\<close>
  "joinWith sep [] = []"
| "joinWith sep [x] = x"
| "joinWith sep (x # y # ys) = x @ sep @ joinWith sep (y # ys)"

function showNat :: "nat \<Rightarrow> string" where
  \<comment> \<open>The decimal numeral a template literal prints for a non-negative integer.\<close>
  "showNat n =
     (if n < 10 then [char_of (48 + n)]
      else showNat (n div 10) @ [char_of (48 + n mod 10)])"
  by pat_completeness auto
termination
  by (relation "measure id") auto

declare showNat.simps [simp del]

section \<open>Key generator (keyGen.js)\<close>

definition MAX_PATH_DEPTH :: nat where
  "MAX_PATH_DEPTH = 4"

definition MAX_KEY_LENGTH :: nat where
  "MAX_KEY_LENGTH = 40"

definition replaceSpecial :: "string \<Rightarrow> string" where
  \<comment> \<open>\<open>.replace(/[^a-z0-9\s]/g, ' ')\<close>\<close>
  "replaceSpecial s = map (\<lambda>c. if isLowerAlnum c \<or> isSpace c then c else CHR '' '') s"

function collapseSpaces :: "string \<Rightarrow> string" where
  \<comment> \<open>\<open>.replace(/\s+/g, '_')\<close>: each maximal run of whitespace becomes one underscore.\<close>
  "collapseSpaces [] = []"
| "collapseSpaces (c # cs) =
     (if isSpace c then CHR ''_'' # collapseSpaces (dropWhile isSpace cs)
      else c # collapseSpaces cs)"
  by pat_completeness auto
termination
  by (relation "measure length") (auto simp: le_imp_less_Suc length_dropWhile_le)

definition stripUnderscores :: "string \<Rightarrow> string" where
  \<comment> \<open>\<open>.replace(/^_+|_+$/g, '')\<close>: the leading and the trailing run of underscores.\<close>
  "stripUnderscores s =
     rev (dropWhile (\<lambda>c. c = CHR ''_'') (rev (dropWhile (\<lambda>c. c = CHR ''_'') s)))"

definition normalizeName :: "string \<Rightarrow> string" where
  \<comment> \<open>The method chain of \<open>nameToKey\<close> before its \<open>|| 'unknown'\<close>.\<close>
  "normalizeName name =
     substring0 MAX_KEY_LENGTH
       (stripUnderscores (collapseSpaces (replaceSpecial (trim (toLowerCase name)))))"

definition nameToKey :: "string \<Rightarrow> string" where
  "nameToKey name = (let k = normalizeName name in if k = [] then ''unknown'' else k)"

definition firstLine :: "string \<Rightarrow> string" where
  \<comment> \<open>\<open>text.split('\n')[0].trim().substring(0, 50)\<close>\<close>
  "firstLine t = substring0 50 (trim (hd (splitOn (CHR 0x0A) t)))"

definition textToKey :: "string \<Rightarrow> string" where
  "textToKey t = (let k = nameToKey (firstLine t) in if k = [] then ''text'' else k)"

definition pathToPrefix :: "string list \<Rightarrow> string" where
  \<comment> \<open>\<open>path.slice(-4)\<close> is the whole path when it has fewer than four names.\<close>
  "pathToPrefix p =
     joinWith ''.''
       (filter (\<lambda>k. k \<noteq> ''unknown'' \<and> length k > 0)
          (map nameToKey (drop (length p - MAX_PATH_DEPTH) p)))"

section \<open>Objects\<close>

text \<open>
  A plain object is the list of its own enumerable properties in insertion order.
  Defining an existing property keeps its place, defining a new one appends it; this is
  what object literals, spread and \<open>Object.fromEntries\<close> do. An assignment
  \<open>obj[k] = v\<close> defines the property too, except for the name \<open>__proto__\<close> on an
  object that does not own it: there the assignment runs the accessor every object
  inherits and adds no property. (JavaScript lists properties whose names are array
  indices first, in numeric order; the statements below read objects through \<open>map_of\<close>
  or \<open>set\<close> wherever that order could show.)
\<close>

fun obj_define :: "string \<Rightarrow> 'v \<Rightarrow> (string \<times> 'v) list \<Rightarrow> (string \<times> 'v) list" where
  "obj_define k v [] = [(k, v)]"
| "obj_define k v ((k', v') # ps) =
     (if k' = k then (k, v) # ps else (k', v') # obj_define k v ps)"

definition obj_set :: "string \<Rightarrow> 'v \<Rightarrow> (string \<times> 'v) list \<Rightarrow> (string \<times> 'v) list" where
  \<comment> \<open>\<open>obj[k] = v\<close>\<close>
  "obj_set k v ps =
     (if k = ''__proto__'' \<and> map_of ps k = None then ps else obj_define k v ps)"

fun obj_delete :: "string \<Rightarrow> (string \<times> 'v) list \<Rightarrow> (string \<times> 'v) list" where
  "obj_delete k [] = []"
| "obj_delete k ((k', v') # ps) =
     (if k' = k then ps else (k', v') # obj_delete k ps)"

definition assign :: "(string \<times> 'v) list \<Rightarrow> (string \<times> 'v) list \<Rightarrow> (string \<times> 'v) list" where
  \<comment> \<open>\<open>Object.assign(target, source)\<close> for a plain source object.\<close>
  "assign target source = foldl (\<lambda>t (k, v). obj_set k v t) target source"

definition fromEntries :: "(string \<times> 'v) list \<Rightarrow> (string \<times> 'v) list" where
  \<comment> \<open>\<open>Object.fromEntries(entries)\<close>\<close>
  "fromEntries es = foldl (\<lambda>t (k, v). obj_define k v t) [] es"

definition objectPrototypeNames :: "string list" where
  \<comment> \<open>The own property names of \<open>Object.prototype\<close>, which every plain object inherits.\<close>
  "objectPrototypeNames =
     [''constructor'', ''__defineGetter__'', ''__defineSetter__'', ''hasOwnProperty'',
      ''__lookupGetter__'', ''__lookupSetter__'', ''isPrototypeOf'',
      ''propertyIsEnumerable'', ''toString'', ''valueOf'', ''__proto__'',
      ''toLocaleString'']"

definition hasProperty :: "(string \<times> 'v) list \<Rightarrow> string \<Rightarrow> bool" where
  \<comment> \<open>\<open>key in obj\<close>: own properties and the inherited ones.\<close>
  "hasProperty obj key = (key \<in> fst ` set obj \<or> key \<in> set objectPrototypeNames)"

type_synonym flatMap = "(string \<times> string) list"

section \<open>buildFlatMap\<close>

record textNode =
  nodeText :: string
  nodePath :: "string list"
  nodeId :: string

definition baseKey :: "textNode \<Rightarrow> string" where
  \<comment> \<open>The key of a node before the duplicate handling.\<close>
  "baseKey n =
     (let pre = pathToPrefix (nodePath n); leaf = textToKey (nodeText n)
      in if pre \<noteq> [] then pre @ ''.'' @ leaf else leaf)"

definition assignKey :: "(string \<rightharpoonup> nat) \<Rightarrow> string \<Rightarrow> string \<times> (string \<rightharpoonup> nat)" where
  \<comment> \<open>The duplicate handling: the key written to the flat map and the updated
      \<open>usedKeys\<close>.\<close>
  "assignKey usedKeys key =
     (case usedKeys key of
        Some c \<Rightarrow> (let count = c + 1 in (key @ ''_'' @ showNat count, usedKeys(key \<mapsto> count)))
      | None \<Rightarrow> (key, usedKeys(key \<mapsto> 1)))"

fun buildLoop :: "textNode list \<Rightarrow> (string \<rightharpoonup> nat) \<Rightarrow> flatMap \<Rightarrow> flatMap" where
  "buildLoop [] usedKeys flat = flat"
| "buildLoop (n # ns) usedKeys flat =
     (let (key, usedKeys') = assignKey usedKeys (baseKey n)
      in buildLoop ns usedKeys' (obj_set key (nodeText n) flat))"

definition buildFlatMap :: "textNode list \<Rightarrow> flatMap" where
  "buildFlatMap textNodes = buildLoop textNodes Map.empty []"

fun keyTrace :: "textNode list \<Rightarrow> (string \<rightharpoonup> nat) \<Rightarrow> string list" where
  \<comment> \<open>The value of \<open>key\<close> at \<open>flatMap[key] = text\<close> in each iteration of the loop:
      the key assigned to each node, in input order.\<close>
  "keyTrace [] usedKeys = []"
| "keyTrace (n # ns) usedKeys =
     (let (key, usedKeys') = assignKey usedKeys (baseKey n)
      in key # keyTrace ns usedKeys')"

definition assignedKeys :: "textNode list \<Rightarrow> string list" where
  "assignedKeys textNodes = keyTrace textNodes Map.empty"

section \<open>Errors\<close>

datatype error =
  UnsupportedLanguage string | InvalidApiKey | RateLimited | ApiFailure "nat option"
  | TypeError | IoError

section \<open>Nested trees\<close>

text \<open>
  A NestedTree maps names to strings or to nested trees. Every object of a tree has the
  prototype \<open>Object.prototype\<close>, and a read \<open>current[k]\<close> of a property the object does not
  own falls through to it. The walks below therefore run against the own properties of
  \<open>Object.prototype\<close> as well, and return what they leave of it: a member is a built-in
  function, the accessor \<open>__proto__\<close>, or a value some assignment has stored there. A
  walk that reads \<open>__proto__\<close> on an object that does not own it steps into
  \<open>Object.prototype\<close> itself and goes on there; a walk that reads an object stored on
  \<open>Object.prototype\<close> goes on inside that object.

  \<open>buildFlatMap\<close>, \<open>nestedToFlat\<close>, \<open>diffFlatMaps\<close> and the translator do not change
  \<open>Object.prototype\<close>; they are modelled for a process in which it has its standard
  members (\<open>pristine\<close>).
\<close>

datatype node = Str string | Obj "(string \<times> node) list"

type_synonym nestedTree = "(string \<times> node) list"

datatype member = Builtin | Accessor | Assigned node

type_synonym prototype = "(string \<times> member) list"

definition pristine :: prototype where
  \<comment> \<open>\<open>Object.prototype\<close> as the language defines it.\<close>
  "pristine = map (\<lambda>n. (n, if n = ''__proto__'' then Accessor else Builtin)) objectPrototypeNames"

datatype jsval = Undefined | Null | Function | Prototype | Own node | Inherited node

fun typeof :: "jsval \<Rightarrow> string" where
  "typeof Undefined = ''undefined''"
| "typeof Null = ''object''"
| "typeof Function = ''function''"
| "typeof Prototype = ''object''"
| "typeof (Own (Str s)) = ''string''"
| "typeof (Own (Obj ps)) = ''object''"
| "typeof (Inherited (Str s)) = ''string''"
| "typeof (Inherited (Obj ps)) = ''object''"

fun truthy :: "jsval \<Rightarrow> bool" where
  "truthy Undefined = False"
| "truthy Null = False"
| "truthy Function = True"
| "truthy Prototype = True"
| "truthy (Own (Str s)) = (s \<noteq> [])"
| "truthy (Own (Obj ps)) = True"
| "truthy (Inherited (Str s)) = (s \<noteq> [])"
| "truthy (Inherited (Obj ps)) = True"

definition inherited :: "prototype \<Rightarrow> string \<Rightarrow> jsval" where
  \<comment> \<open>What an object of a tree reads under a name it does not own. The getter of
      \<open>__proto__\<close> returns the prototype of the object, \<open>Object.prototype\<close>.\<close>
  "inherited proto k =
     (case map_of proto k of
        None \<Rightarrow> Undefined
      | Some Builtin \<Rightarrow> Function
      | Some Accessor \<Rightarrow> Prototype
      | Some (Assigned n) \<Rightarrow> Inherited n)"

definition getProp :: "prototype \<Rightarrow> nestedTree \<Rightarrow> string \<Rightarrow> jsval" where
  \<comment> \<open>\<open>current[k]\<close> for an object whose prototype is \<open>Object.prototype\<close>\<close>
  "getProp proto current k =
     (case map_of current k of Some n \<Rightarrow> Own n | None \<Rightarrow> inherited proto k)"

definition setProp :: "prototype \<Rightarrow> string \<Rightarrow> node \<Rightarrow> nestedTree \<Rightarrow> nestedTree" where
  \<comment> \<open>\<open>current[k] = v\<close> for such an object. Where it inherits the accessor, the
      assignment runs the setter, which ignores a string (the walks never hand it an
      object: they assign one only where the read was not an object, and the getter
      returns one).\<close>
  "setProp proto k v current =
     (if map_of current k = None \<and> map_of proto k = Some Accessor then current
      else obj_define k v current)"

subsection \<open>Walking inside Object.prototype\<close>

text \<open>
  Where the walk stands inside \<open>Object.prototype\<close> is a path \<open>at\<close>: the empty path is
  \<open>Object.prototype\<close> itself, and \<open>k # ks\<close> is the object reached from the object stored
  under \<open>k\<close> along the own properties \<open>ks\<close>.
\<close>

fun descend :: "nestedTree \<Rightarrow> string list \<Rightarrow> nestedTree option" where
  "descend obj [] = Some obj"
| "descend obj (k # ks) =
     (case map_of obj k of Some (Obj child) \<Rightarrow> descend child ks | _ \<Rightarrow> None)"

fun modify :: "string list \<Rightarrow> (nestedTree \<Rightarrow> nestedTree) \<Rightarrow> nestedTree \<Rightarrow> nestedTree" where
  "modify [] f obj = f obj"
| "modify (k # ks) f obj =
     (case map_of obj k of
        Some (Obj child) \<Rightarrow> obj_define k (Obj (modify ks f child)) obj
      | _ \<Rightarrow> obj)"

definition objectAt :: "prototype \<Rightarrow> string list \<Rightarrow> nestedTree option" where
  "objectAt proto at =
     (case at of
        [] \<Rightarrow> None
      | k # ks \<Rightarrow> (case map_of proto k of Some (Assigned (Obj obj)) \<Rightarrow> descend obj ks | _ \<Rightarrow> None))"

definition modifyAt :: "string list \<Rightarrow> (nestedTree \<Rightarrow> nestedTree) \<Rightarrow> prototype \<Rightarrow> prototype" where
  "modifyAt at f proto =
     (case at of
        [] \<Rightarrow> proto
      | k # ks \<Rightarrow>
          (case map_of proto k of
             Some (Assigned (Obj obj)) \<Rightarrow> obj_define k (Assigned (Obj (modify ks f obj))) proto
           | _ \<Rightarrow> proto))"

definition readAt :: "prototype \<Rightarrow> string list \<Rightarrow> string \<Rightarrow> jsval" where
  \<comment> \<open>\<open>current[k]\<close>. On \<open>Object.prototype\<close> itself the read is of own properties only
      (its prototype is \<open>null\<close>, which is also what the getter of \<open>__proto__\<close>
      returns).\<close>
  "readAt proto at k =
     (if at = []
      then (case map_of proto k of
              None \<Rightarrow> Undefined
            | Some Builtin \<Rightarrow> Function
            | Some Accessor \<Rightarrow> Null
            | Some (Assigned n) \<Rightarrow> Own n)
      else (case objectAt proto at of Some obj \<Rightarrow> getProp proto obj k | None \<Rightarrow> Undefined))"

definition writeAt :: "string list \<Rightarrow> string \<Rightarrow> node \<Rightarrow> prototype \<Rightarrow> error + prototype" where
  \<comment> \<open>\<open>current[k] = v\<close>. On \<open>Object.prototype\<close> itself the setter of \<open>__proto__\<close> ignores
      a string and throws on an object: the prototype of \<open>Object.prototype\<close> cannot be
      set.\<close>
  "writeAt at k v proto =
     (if at = []
      then (case map_of proto k of
              Some Accessor \<Rightarrow> (case v of Str s \<Rightarrow> Inr proto | Obj ps \<Rightarrow> Inl TypeError)
            | _ \<Rightarrow> Inr (obj_define k (Assigned v) proto))
      else Inr (modifyAt at (setProp proto k v) proto))"

definition deleteAt :: "string list \<Rightarrow> string \<Rightarrow> prototype \<Rightarrow> prototype" where
  \<comment> \<open>\<open>delete current[k]\<close>: every member of \<open>Object.prototype\<close> is configurable.\<close>
  "deleteAt at k proto =
     (if at = [] then obj_delete k proto else modifyAt at (obj_delete k) proto)"

fun stepInto :: "string list \<Rightarrow> string \<Rightarrow> jsval \<Rightarrow> string list" where
  \<comment> \<open>Where \<open>current = current[k]\<close> leads, for the truthy objects a read can give.\<close>
  "stepInto at k (Own (Obj ps)) = at @ [k]"
| "stepInto at k (Inherited (Obj ps)) = [k]"
| "stepInto at k Prototype = []"
| "stepInto at k r = at"

definition demoteAt :: "string list \<Rightarrow> string \<Rightarrow> prototype \<Rightarrow> error + prototype" where
  \<comment> \<open>\<open>if (typeof current[k] === 'string') current[k] = { _value: current[k] }\<close>\<close>
  "demoteAt at k proto =
     (case readAt proto at k of
        Own (Str s) \<Rightarrow> writeAt at k (Obj [(''_value'', Str s)]) proto
      | Inherited (Str s) \<Rightarrow> writeAt at k (Obj [(''_value'', Str s)]) proto
      | _ \<Rightarrow> Inr proto)"

definition ensureAt :: "string list \<Rightarrow> string \<Rightarrow> prototype \<Rightarrow> error + prototype" where
  \<comment> \<open>\<open>if (!current[k] || typeof current[k] !== 'object') current[k] = {}\<close>\<close>
  "ensureAt at k proto =
     (if \<not> truthy (readAt proto at k) \<or> typeof (readAt proto at k) \<noteq> ''object''
      then writeAt at k (Obj []) proto else Inr proto)"

fun insertProto :: "string list \<Rightarrow> string \<Rightarrow> string list \<Rightarrow> prototype \<Rightarrow> error + prototype" where
  \<comment> \<open>The rest of the inner loop of \<open>flatToNested\<close> and its final assignment, from
      inside \<open>Object.prototype\<close>.\<close>
  "insertProto [] v at proto = Inr proto"
| "insertProto [lastKey] v at proto = writeAt at lastKey (Str v) proto"
| "insertProto (k # ks) v at proto =
     (case demoteAt at k proto of
        Inl e \<Rightarrow> Inl e
      | Inr p1 \<Rightarrow>
          (case ensureAt at k p1 of
             Inl e \<Rightarrow> Inl e
           | Inr p2 \<Rightarrow> insertProto ks v (stepInto at k (readAt p2 at k)) p2))"

fun setProto :: "string list \<Rightarrow> string \<Rightarrow> string list \<Rightarrow> prototype \<Rightarrow> error + prototype" where
  \<comment> \<open>The same for \<open>setNestedKey\<close>.\<close>
  "setProto [] v at proto = Inr proto"
| "setProto [lastKey] v at proto = writeAt at lastKey (Str v) proto"
| "setProto (k # ks) v at proto =
     (case ensureAt at k proto of
        Inl e \<Rightarrow> Inl e
      | Inr p1 \<Rightarrow> setProto ks v (stepInto at k (readAt p1 at k)) p1)"

fun removeProto :: "string list \<Rightarrow> string list \<Rightarrow> prototype \<Rightarrow> prototype" where
  \<comment> \<open>The same for \<open>removeNestedKey\<close>.\<close>
  "removeProto [] at proto = proto"
| "removeProto [lastKey] at proto = deleteAt at lastKey proto"
| "removeProto (k # ks) at proto =
     (if \<not> truthy (readAt proto at k) \<or> typeof (readAt proto at k) \<noteq> ''object''
      then proto
      else removeProto ks (stepInto at k (readAt proto at k)) proto)"

subsection \<open>flatToNested and nestedToFlat (keyGen.js)\<close>

fun insertWalk ::
  "string list \<Rightarrow> string \<Rightarrow> nestedTree \<Rightarrow> prototype \<Rightarrow> error + nestedTree \<times> prototype" where
  \<comment> \<open>The body of the outer loop of \<open>flatToNested\<close> for the segments \<open>keys\<close>, started at
      the object \<open>current\<close> of the tree: that object after the writes below it, and
      \<open>Object.prototype\<close> after them, or the error thrown.\<close>
  "insertWalk [] v current proto = Inr (current, proto)"
| "insertWalk [lastKey] v current proto = Inr (setProp proto lastKey (Str v) current, proto)"
| "insertWalk (k # ks) v current proto =
     (let c1 = (case getProp proto current k of
                  Own (Str s) \<Rightarrow> setProp proto k (Obj [(''_value'', Str s)]) current
                | Inherited (Str s) \<Rightarrow> setProp proto k (Obj [(''_value'', Str s)]) current
                | _ \<Rightarrow> current);
          c2 = (if \<not> truthy (getProp proto c1 k) \<or> typeof (getProp proto c1 k) \<noteq> ''object''
                then setProp proto k (Obj []) c1 else c1)
      in case getProp proto c2 k of
           Own (Obj child) \<Rightarrow>
             (case insertWalk ks v child proto of
                Inl e \<Rightarrow> Inl e
              | Inr (child', proto') \<Rightarrow> Inr (obj_define k (Obj child') c2, proto'))
         | Inherited (Obj obj) \<Rightarrow>
             (case insertProto ks v [k] proto of
                Inl e \<Rightarrow> Inl e
              | Inr proto' \<Rightarrow> Inr (c2, proto'))
         | Prototype \<Rightarrow>
             (case insertProto ks v [] proto of
                Inl e \<Rightarrow> Inl e
              | Inr proto' \<Rightarrow> Inr (c2, proto'))
         | _ \<Rightarrow> Inr (c2, proto))"

fun insertAll ::
  "flatMap \<Rightarrow> nestedTree \<Rightarrow> prototype \<Rightarrow> error + nestedTree \<times> prototype" where
  \<comment> \<open>The outer loop of \<open>flatToNested\<close> over the remaining entries.\<close>
  "insertAll [] nested proto = Inr (nested, proto)"
| "insertAll ((dotKey, v) # rest) nested proto =
     (case insertWalk (splitOn (CHR ''.'') dotKey) v nested proto of
        Inl e \<Rightarrow> Inl e
      | Inr (nested', proto') \<Rightarrow> insertAll rest nested' proto')"

definition flatToNested :: "flatMap \<Rightarrow> prototype \<Rightarrow> error + nestedTree \<times> prototype" where
  \<comment> \<open>The tree returned and \<open>Object.prototype\<close> after the call, or the error thrown.\<close>
  "flatToNested flat proto = insertAll flat [] proto"

definition fullKey :: "string \<Rightarrow> string \<Rightarrow> string" where
  \<comment> \<open>\<open>prefix ? `${prefix}.${key}` : key\<close>\<close>
  "fullKey pre key = (if pre \<noteq> [] then pre @ ''.'' @ key else key)"

fun toFlatEntries :: "nestedTree \<Rightarrow> string \<Rightarrow> flatMap \<Rightarrow> flatMap"
  and toFlatValue :: "node \<Rightarrow> string \<Rightarrow> flatMap \<Rightarrow> flatMap" where
  \<comment> \<open>The loop of \<open>nestedToFlat\<close> over the remaining entries, and its body for one value
      at its full key; \<open>flat\<close> is the object built so far.\<close>
  "toFlatEntries [] pre flat = flat"
| "toFlatEntries ((key, v) # rest) pre flat =
     toFlatEntries rest pre (toFlatValue v (fullKey pre key) flat)"
| "toFlatValue (Str s) fk flat = obj_set fk s flat"
| "toFlatValue (Obj ps) fk flat = assign flat (toFlatEntries ps fk [])"

definition nestedToFlat :: "nestedTree \<Rightarrow> string \<Rightarrow> flatMap" where
  "nestedToFlat nested pre = toFlatEntries nested pre []"

subsection \<open>removeNestedKey and setNestedKey (locales.js)\<close>

fun removeWalk :: "string list \<Rightarrow> nestedTree \<Rightarrow> prototype \<Rightarrow> nestedTree \<times> prototype" where
  "removeWalk [] current proto = (current, proto)"
| "removeWalk [lastKey] current proto = (obj_delete lastKey current, proto)"
| "removeWalk (k # ks) current proto =
     (if \<not> truthy (getProp proto current k) \<or> typeof (getProp proto current k) \<noteq> ''object''
      then (current, proto)
      else case getProp proto current k of
             Own (Obj child) \<Rightarrow>
               (case removeWalk ks child proto of
                  (child', proto') \<Rightarrow> (obj_define k (Obj child') current, proto'))
           | Inherited (Obj obj) \<Rightarrow> (current, removeProto ks [k] proto)
           | Prototype \<Rightarrow> (current, removeProto ks [] proto)
           | _ \<Rightarrow> (current, proto))"

definition removeNestedKey :: "nestedTree \<Rightarrow> string \<Rightarrow> prototype \<Rightarrow> nestedTree \<times> prototype" where
  \<comment> \<open>The tree and \<open>Object.prototype\<close> after the call. No step of it throws.\<close>
  "removeNestedKey obj dotKey proto = removeWalk (splitOn (CHR ''.'') dotKey) obj proto"

fun setWalk ::
  "string list \<Rightarrow> string \<Rightarrow> nestedTree \<Rightarrow> prototype \<Rightarrow> error + nestedTree \<times> prototype" where
  "setWalk [] v current proto = Inr (current, proto)"
| "setWalk [lastKey] v current proto = Inr (setProp proto lastKey (Str v) current, proto)"
| "setWalk (k # ks) v current proto =
     (let c1 = (if \<not> truthy (getProp proto current k)
                   \<or> typeof (getProp proto current k) \<noteq> ''object''
                then setProp proto k (Obj []) current else current)
      in case getProp proto c1 k of
           Own (Obj child) \<Rightarrow>
             (case setWalk ks v child proto of
                Inl e \<Rightarrow> Inl e
              | Inr (child', proto') \<Rightarrow> Inr (obj_define k (Obj child') c1, proto'))
         | Inherited (Obj obj) \<Rightarrow>
             (case setProto ks v [k] proto of
                Inl e \<Rightarrow> Inl e
              | Inr proto' \<Rightarrow> Inr (c1, proto'))
         | Prototype \<Rightarrow>
             (case setProto ks v [] proto of
                Inl e \<Rightarrow> Inl e
              | Inr proto' \<Rightarrow> Inr (c1, proto'))
         | _ \<Rightarrow> Inr (c1, proto))"

definition setNestedKey ::
  "nestedTree \<Rightarrow> string \<Rightarrow> string \<Rightarrow> prototype \<Rightarrow> error + nestedTree \<times> prototype" where
  \<comment> \<open>The tree and \<open>Object.prototype\<close> after the call, or the error thrown.\<close>
  "setNestedKey obj dotKey v proto = setWalk (splitOn (CHR ''.'') dotKey) v obj proto"

section \<open>Cache diff (cache.js)\<close>

record diffResult =
  added :: flatMap
  changed :: flatMap
  removed :: "string list"

definition diffFlatMaps :: "flatMap \<Rightarrow> flatMap \<Rightarrow> diffResult" where
  \<comment> \<open>\<open>cached[key] !== value\<close> holds unless \<open>cached\<close> owns \<open>key\<close> with that very string:
      an inherited member is never a string.\<close>
  "diffFlatMaps current cached =
     (let (a, c) =
            foldl (\<lambda>(a, c) (key, v).
                     if \<not> hasProperty cached key then (obj_set key v a, c)
                     else if map_of cached key \<noteq> Some v then (a, obj_set key v c)
                     else (a, c))
                  ([], []) current;
          r = filter (\<lambda>key. \<not> hasProperty current key) (map fst cached)
      in \<lparr>added = a, changed = c, removed = r\<rparr>)"

section \<open>Translator (translator.js)\<close>

text \<open>
  The translation backend is an oracle: \<open>client i\<close> is the outcome of the \<open>i\<close>-th call of
  \<open>messages.create\<close>, and every function threads the number of calls made so far. The
  prompts are not modelled, so the language name and the translated batch handed to the
  scoring prompt do not appear. \<open>JSON.parse\<close> is a parameter \<open>parse\<close>, \<open>None\<close> where it
  throws. Numbers carry a payload of any type \<open>'n\<close>: the code never inspects one.
\<close>

datatype 'n json =
  JNull | JBool bool | JNum 'n | JStr string | JArr "'n json list"
  | JObj "(string \<times> 'n json) list"

datatype reply =
  Throws "nat option"  \<comment> \<open>the call rejects with an error of this \<open>status\<close>\<close>
  | Message "string option"  \<comment> \<open>\<open>message.content[0].text\<close>, \<open>None\<close> when there is none\<close>

definition LANGUAGES :: "string list" where
  \<comment> \<open>The keys of \<open>LANGUAGES\<close>.\<close>
  "LANGUAGES = [''ko'', ''zh'', ''ja'']"

definition TRANSLATE_BATCH_SIZE :: nat where
  "TRANSLATE_BATCH_SIZE = 50"

definition CONFIDENCE_BATCH_SIZE :: nat where
  "CONFIDENCE_BATCH_SIZE = 80"

definition hasLangName :: "string \<Rightarrow> bool" where
  \<comment> \<open>\<open>LANGUAGES[targetLang]\<close> is truthy: an own name, or a member every object inherits.\<close>
  "hasLangName targetLang =
     (targetLang \<in> set LANGUAGES \<or> targetLang \<in> set objectPrototypeNames)"

definition handleApiError :: "nat option \<Rightarrow> error" where
  \<comment> \<open>\<open>_handleApiError\<close> always throws; this is what it throws.\<close>
  "handleApiError status =
     (if status = Some 401 then InvalidApiKey
      else if status = Some 429 then RateLimited
      else ApiFailure status)"

definition stripFenceOpen :: "string \<Rightarrow> string" where
  \<comment> \<open>\<open>.replace(/^```(?:json)?\s*/i, '')\<close>\<close>
  "stripFenceOpen s =
     (if take 3 s = ''```''
      then (let r = drop 3 s;
                r' = (if toLowerCase (take 4 r) = ''json'' then drop 4 r else r)
            in dropWhile isSpace r')
      else s)"

definition stripFenceClose :: "string \<Rightarrow> string" where
  \<comment> \<open>\<open>.replace(/\s*```$/, '')\<close>: a closing fence at the very end, with the whitespace
      before it.\<close>
  "stripFenceClose s =
     (if take 3 (rev s) = ''```'' then rev (dropWhile isSpace (drop 3 (rev s))) else s)"

definition cleanResponse :: "string \<Rightarrow> string" where
  "cleanResponse raw = trim (stripFenceClose (stripFenceOpen raw))"

definition ownEntries :: "'n json \<Rightarrow> (string \<times> 'n json) list" where
  \<comment> \<open>The own enumerable properties \<open>Object.assign\<close>, \<open>Object.entries\<close> and spread copy
      from a value: the entries of an object, the indexed elements of an array or of a
      string, nothing for the other primitives.\<close>
  "ownEntries v =
     (case v of
        JObj ps \<Rightarrow> ps
      | JArr xs \<Rightarrow> zip (map showNat [0..<length xs]) xs
      | JStr s \<Rightarrow> zip (map showNat [0..<length s]) (map (\<lambda>c. JStr [c]) s)
      | _ \<Rightarrow> [])"

definition objectEntries :: "'n json \<Rightarrow> error + (string \<times> 'n json) list" where
  \<comment> \<open>\<open>Object.entries(v)\<close> throws on \<open>null\<close>.\<close>
  "objectEntries v = (case v of JNull \<Rightarrow> Inl TypeError | _ \<Rightarrow> Inr (ownEntries v))"

definition flatToJson :: "flatMap \<Rightarrow> 'n json" where
  \<comment> \<open>A flat map as the value it is.\<close>
  "flatToJson flat = JObj (map (\<lambda>(k, v). (k, JStr v)) flat)"

definition ratioAbove80 :: "nat \<Rightarrow> nat \<Rightarrow> bool" where
  \<comment> \<open>\<open>unchangedCount / total > 0.8\<close>. The quotient of two counts is above the double
      0.8 exactly when \<open>5 * unchangedCount > 4 * total\<close>; with \<open>total = 0\<close> it is
      \<open>NaN\<close> or \<open>Infinity\<close>.\<close>
  "ratioAbove80 unchangedCount totalCount =
     (if totalCount = 0 then unchangedCount > 0 else 5 * unchangedCount > 4 * totalCount)"

definition sameAsSource :: "flatMap \<Rightarrow> string \<Rightarrow> 'n json \<Rightarrow> bool" where
  \<comment> \<open>\<open>v === batch[k]\<close>: only a string can equal the string \<open>batch\<close> owns under \<open>k\<close>;
      what \<open>batch\<close> inherits is never a JSON value.\<close>
  "sameAsSource batch k v = (case v of JStr s \<Rightarrow> map_of batch k = Some s | _ \<Rightarrow> False)"

definition parseEntries ::
  "(string \<Rightarrow> 'n json option) \<Rightarrow> string \<Rightarrow> ('n json \<times> (string \<times> 'n json) list) option" where
  \<comment> \<open>The first two steps of the \<open>try\<close> block of \<open>_translateBatch\<close>: \<open>JSON.parse(cleaned)\<close>
      and \<open>Object.entries(parsed)\<close>; \<open>None\<close> when either throws into the \<open>catch\<close>.\<close>
  "parseEntries parse cleaned =
     (case parse cleaned of
        None \<Rightarrow> None
      | Some parsed \<Rightarrow>
          (case objectEntries parsed of Inl e \<Rightarrow> None | Inr es \<Rightarrow> Some (parsed, es)))"

function translateBatch ::
  "(string \<Rightarrow> 'n json option) \<Rightarrow> (nat \<Rightarrow> reply) \<Rightarrow> flatMap \<Rightarrow> nat \<Rightarrow> nat
     \<Rightarrow> (error + 'n json) \<times> nat" where
  "translateBatch parse client batch retryCount calls =
     (case client calls of
        Throws status \<Rightarrow> (Inl (handleApiError status), calls + 1)
      | Message None \<Rightarrow> (Inl TypeError, calls + 1)
      | Message (Some t) \<Rightarrow>
          (case parseEntries parse (cleanResponse (trim t)) of
             Some (parsed, es) \<Rightarrow>
               (if ratioAbove80
                     (length (filter (\<lambda>(k, v). sameAsSource batch k v) es))
                     (length batch)
                   \<and> retryCount < 2
                then translateBatch parse client batch (retryCount + 1) (calls + 1)
                else (Inr parsed, calls + 1))
           | None \<Rightarrow>
               (if retryCount < 2
                then translateBatch parse client batch (retryCount + 1) (calls + 1)
                else (Inr (flatToJson batch), calls + 1))))"
  by pat_completeness auto
termination
  by (relation "measure (\<lambda>(parse, client, batch, retryCount, calls). 2 - retryCount)") auto

declare translateBatch.simps [simp del]

function translateStage ::
  "(string \<Rightarrow> 'n json option) \<Rightarrow> (nat \<Rightarrow> reply) \<Rightarrow> flatMap \<Rightarrow> nat
     \<Rightarrow> (string \<times> 'n json) list \<Rightarrow> nat \<Rightarrow> (error + (string \<times> 'n json) list) \<times> nat" where
  \<comment> \<open>The first loop of \<open>translateFlatMap\<close>, from index \<open>i\<close> on.\<close>
  "translateStage parse client entries i translatedResult calls =
     (if i < length entries
      then (case translateBatch parse client
                   (fromEntries (take TRANSLATE_BATCH_SIZE (drop i entries))) 0 calls of
              (Inl e, calls') \<Rightarrow> (Inl e, calls')
            | (Inr translated, calls') \<Rightarrow>
                translateStage parse client entries (i + TRANSLATE_BATCH_SIZE)
                  (assign translatedResult (ownEntries translated)) calls')
      else (Inr translatedResult, calls))"
  by pat_completeness auto
termination
  by (relation "measure (\<lambda>(parse, client, entries, i, r, calls). length entries - i)")
     (auto simp: TRANSLATE_BATCH_SIZE_def)

declare translateStage.simps [simp del]

definition nullScores :: "flatMap \<Rightarrow> 'n json" where
  \<comment> \<open>\<open>Object.fromEntries(Object.keys(enBatch).map(k => [k, null]))\<close>\<close>
  "nullScores enBatch = JObj (fromEntries (map (\<lambda>k. (k, JNull)) (map fst enBatch)))"

definition scoreBatch ::
  "(string \<Rightarrow> 'n json option) \<Rightarrow> (nat \<Rightarrow> reply) \<Rightarrow> flatMap \<Rightarrow> nat \<Rightarrow> (error + 'n json) \<times> nat" where
  "scoreBatch parse client enBatch calls =
     (case client calls of
        Throws status \<Rightarrow> (Inr (nullScores enBatch), calls + 1)
      | Message None \<Rightarrow> (Inl TypeError, calls + 1)
      | Message (Some t) \<Rightarrow>
          (case parse (cleanResponse (trim t)) of
             Some parsed \<Rightarrow> (Inr parsed, calls + 1)
           | None \<Rightarrow> (Inr (nullScores enBatch), calls + 1)))"

function scoreStage ::
  "(string \<Rightarrow> 'n json option) \<Rightarrow> (nat \<Rightarrow> reply) \<Rightarrow> flatMap \<Rightarrow> nat
     \<Rightarrow> (string \<times> 'n json) list \<Rightarrow> nat \<Rightarrow> (error + (string \<times> 'n json) list) \<times> nat" where
  \<comment> \<open>The loop inside the \<open>try\<close> of \<open>translateFlatMap\<close>, from index \<open>i\<close> on.\<close>
  "scoreStage parse client entries2 i confidenceResult calls =
     (if i < length entries2
      then (case scoreBatch parse client
                   (fromEntries (take CONFIDENCE_BATCH_SIZE (drop i entries2))) calls of
              (Inl e, calls') \<Rightarrow> (Inl e, calls')
            | (Inr scores, calls') \<Rightarrow>
                scoreStage parse client entries2 (i + CONFIDENCE_BATCH_SIZE)
                  (assign confidenceResult (ownEntries scores)) calls')
      else (Inr confidenceResult, calls))"
  by pat_completeness auto
termination
  by (relation "measure (\<lambda>(parse, client, entries, i, r, calls). length entries - i)")
     (auto simp: CONFIDENCE_BATCH_SIZE_def)

declare scoreStage.simps [simp del]

text \<open>
  The file system as \<open>_saveConfidence\<close> sees it: whether \<open>.cache\<close> exists, what the
  confidence file holds, and whether \<open>mkdir\<close> and \<open>writeFile\<close> are going to fail.
\<close>

datatype 'n storedFile = Missing | Unreadable | Content "'n json"

record 'n fileSystem =
  cacheDirExists :: bool
  confidenceFile :: "'n storedFile"
  mkdirFails :: bool
  writeFails :: bool

definition mergeScores ::
  "'n json \<Rightarrow> string \<Rightarrow> (string \<times> 'n json) list \<Rightarrow> error + 'n json" where
  \<comment> \<open>\<open>all[lang] = { ...(all[lang] || {}), ...filtered }\<close> and the value
      \<open>JSON.stringify\<close> then sees. Reading a property of \<open>null\<close> and, in a module,
      creating one on a primitive throw; a property added to an array is not
      serialised; what \<open>all\<close> does not own under \<open>lang\<close> spreads to nothing.\<close>
  "mergeScores all lang filtered =
     (case all of
        JNull \<Rightarrow> Inl TypeError
      | JObj ps \<Rightarrow>
          Inr (JObj (obj_set lang
                 (JObj (fromEntries
                    ((case map_of ps lang of Some old \<Rightarrow> ownEntries old | None \<Rightarrow> [])
                       @ filtered)))
                 ps))
      | JArr xs \<Rightarrow> Inr (JArr xs)
      | _ \<Rightarrow> Inl TypeError)"

definition saveConfidence ::
  "'n fileSystem \<Rightarrow> string \<Rightarrow> (string \<times> 'n json) list \<Rightarrow> error option \<times> 'n fileSystem" where
  "saveConfidence fs lang confidenceMap =
     (if \<not> cacheDirExists fs \<and> mkdirFails fs then (Some IoError, fs)
      else
        (let fs1 = fs\<lparr>cacheDirExists := True\<rparr>;
             all = (case confidenceFile fs1 of Content v \<Rightarrow> v | _ \<Rightarrow> JObj []);
             filtered = fromEntries (filter (\<lambda>(k, v). v \<noteq> JNull) confidenceMap)
         in case mergeScores all lang filtered of
              Inl e \<Rightarrow> (Some e, fs1)
            | Inr all' \<Rightarrow>
                if writeFails fs1 then (Some IoError, fs1)
                else (None, fs1\<lparr>confidenceFile := Content all'\<rparr>)))"

definition scoringStage ::
  "(string \<Rightarrow> 'n json option) \<Rightarrow> (nat \<Rightarrow> reply) \<Rightarrow> 'n fileSystem \<Rightarrow> flatMap \<Rightarrow> string \<Rightarrow> nat
     \<Rightarrow> error option \<times> 'n fileSystem \<times> nat" where
  \<comment> \<open>The body of the \<open>try\<close> block of \<open>translateFlatMap\<close>, with the error it throws.\<close>
  "scoringStage parse client fs flatMap targetLang calls =
     (case scoreStage parse client flatMap 0 [] calls of
        (Inl e, calls') \<Rightarrow> (Some e, fs, calls')
      | (Inr confidenceResult, calls') \<Rightarrow>
          (case saveConfidence fs targetLang confidenceResult of
             (err, fs') \<Rightarrow> (err, fs', calls')))"

definition translateFlatMap ::
  "(string \<Rightarrow> 'n json option) \<Rightarrow> (nat \<Rightarrow> reply) \<Rightarrow> 'n fileSystem \<Rightarrow> flatMap \<Rightarrow> string \<Rightarrow> nat
     \<Rightarrow> (error + (string \<times> 'n json) list) \<times> 'n fileSystem \<times> nat" where
  \<comment> \<open>The \<open>catch\<close> only logs \<open>err.message\<close>: whatever the \<open>try\<close> block threw is
      dropped.\<close>
  "translateFlatMap parse client fs flatMap targetLang calls =
     (if \<not> hasLangName targetLang then (Inl (UnsupportedLanguage targetLang), fs, calls)
      else
        (case translateStage parse client flatMap 0 [] calls of
           (Inl e, calls') \<Rightarrow> (Inl e, fs, calls')
         | (Inr translatedResult, calls') \<Rightarrow>
             (case scoringStage parse client fs flatMap targetLang calls' of
                (err, fs', calls'') \<Rightarrow> (Inr translatedResult, fs', calls''))))"

section \<open>Auxiliary definitions\<close>


fun usedAfter :: "textNode list \<Rightarrow> (string \<rightharpoonup> nat) \<Rightarrow> (string \<rightharpoonup> nat)" where
  \<comment> \<open>\<open>usedKeys\<close> after the loop of \<open>buildFlatMap\<close> has run over the given nodes.\<close>
  "usedAfter [] usedKeys = usedKeys"
| "usedAfter (n # ns) usedKeys = usedAfter ns (snd (assignKey usedKeys (baseKey n)))"

text \<open>
  The string leaves of a tree with their paths, trees whose objects have distinct
  property names, and the full key \<open>nestedToFlat\<close> computes along a path.
\<close>

fun leavesT :: "nestedTree \<Rightarrow> (string list \<times> string) set"
  and leavesN :: "node \<Rightarrow> (string list \<times> string) set" where
  "leavesT [] = {}"
| "leavesT ((k, n) # ps) = (\<lambda>(p, v). (k # p, v)) ` leavesN n \<union> leavesT ps"
| "leavesN (Str s) = {([], s)}"
| "leavesN (Obj ps) = leavesT ps"

fun wfT :: "nestedTree \<Rightarrow> bool" and wfN :: "node \<Rightarrow> bool" where
  "wfT [] = True"
| "wfT ((k, n) # ps) = (k \<notin> fst ` set ps \<and> wfN n \<and> wfT ps)"
| "wfN (Str s) = True"
| "wfN (Obj ps) = wfT ps"

fun fkPath :: "string \<Rightarrow> string list \<Rightarrow> string" where
  "fkPath pre [] = pre"
| "fkPath pre (k # p) = fkPath (fullKey pre k) p"

definition segments :: "string \<Rightarrow> string list" where
  \<comment> \<open>\<open>dotKey.split('.')\<close>\<close>
  "segments dotKey = splitOn (CHR ''.'') dotKey"

definition childOf :: "nestedTree \<Rightarrow> string \<Rightarrow> nestedTree" where
  \<comment> \<open>The object \<open>flatToNested\<close> descends into at segment \<open>k\<close>.\<close>
  "childOf t k =
     (case map_of t k of
        Some (Obj c) \<Rightarrow> c
      | Some (Str s) \<Rightarrow> [(''_value'', Str s)]
      | None \<Rightarrow> [])"

fun insertPlain :: "string list \<Rightarrow> string \<Rightarrow> nestedTree \<Rightarrow> nestedTree" where
  \<comment> \<open>What the walk of \<open>flatToNested\<close> does to the tree where every read is of an own
      property or finds nothing to descend into (lemma \<open>insertWalk_plain\<close> below).\<close>
  "insertPlain [] v t = t"
| "insertPlain [lastKey] v t = obj_define lastKey (Str v) t"
| "insertPlain (k # ks) v t = obj_define k (Obj (insertPlain ks v (childOf t k))) t"

definition plainTree :: "flatMap \<Rightarrow> nestedTree" where
  "plainTree flat =
     foldl (\<lambda>nested (dotKey, v). insertPlain (splitOn (CHR ''.'') dotKey) v nested) [] flat"

definition prefixFree :: "flatMap \<Rightarrow> bool" where
  \<comment> \<open>No key is a dotted proper prefix of another key.\<close>
  "prefixFree flat =
     (\<forall>k1 \<in> fst ` set flat. \<forall>k2 \<in> fst ` set flat.
        \<not> strict_prefix (segments k1) (segments k2))"

definition plainKey :: "string \<Rightarrow> bool" where
  \<comment> \<open>The key does not begin with a dot and has no segment \<open>__proto__\<close>.\<close>
  "plainKey k = (take 1 k \<noteq> ''.'' \<and> ''__proto__'' \<notin> set (segments k))"

text \<open>A small backend and file system for the concrete runs below.\<close>

definition exampleParse :: "string \<Rightarrow> nat json option" where
  "exampleParse s =
     (if s = ''{\"footer.save\": \"jeojang\"}'' then Some (JObj [(''footer.save'', JStr ''jeojang'')])
      else if s = ''{\"footer.save\": 92}'' then Some (JObj [(''footer.save'', JNum 92)])
      else None)"

definition exampleClient :: "nat \<Rightarrow> reply" where
  "exampleClient i =
     (if i = 0 then Message (Some ''{\"footer.save\": \"jeojang\"}'')
      else Message (Some ''{\"footer.save\": 92}''))"

definition exampleClientScoringDown :: "nat \<Rightarrow> reply" where
  "exampleClientScoringDown i =
     (if i = 0 then Message (Some ''{\"footer.save\": \"jeojang\"}'') else Throws None)"

definition exampleFs :: "nat fileSystem" where
  "exampleFs = \<lparr>cacheDirExists = True, confidenceFile = Missing, mkdirFails = False,
                 writeFails = False\<rparr>"

definition exampleFsReadOnly :: "nat fileSystem" where
  "exampleFsReadOnly = \<lparr>cacheDirExists = False, confidenceFile = Missing, mkdirFails = True,
                 writeFails = True\<rparr>"

text \<open>
  One attempt of \<open>_translateBatch\<close> on a reply: the value it returns or the error it
  throws, or \<open>None\<close> when it retries.
\<close>

definition attemptOutcome ::
  "(string \<Rightarrow> 'n json option) \<Rightarrow> reply \<Rightarrow> flatMap \<Rightarrow> nat \<Rightarrow> (error + 'n json) option" where
  "attemptOutcome parse rep batch retryCount =
     (case rep of
        Throws status \<Rightarrow> Some (Inl (handleApiError status))
      | Message None \<Rightarrow> Some (Inl TypeError)
      | Message (Some t) \<Rightarrow>
          (case parseEntries parse (cleanResponse (trim t)) of
             Some (parsed, es) \<Rightarrow>
               (if ratioAbove80 (length (filter (\<lambda>(k, v). sameAsSource batch k v) es))
                     (length batch) \<and> retryCount < 2
                then None else Some (Inr parsed))
           | None \<Rightarrow> (if retryCount < 2 then None else Some (Inr (flatToJson batch)))))"

section \<open>Properties of the key generator\<close>

lemma nameToKey_nonempty: "nameToKey name \<noteq> []"
  by (simp add: nameToKey_def Let_def)

text \<open>
  C7. The claim is that a text whose first line normalizes to the empty token gets the
  key \<open>text\<close>. \<open>nameToKey\<close> has already replaced the empty token by \<open>unknown\<close>, so the
  \<open>|| 'text'\<close> of \<open>textToKey\<close> never applies: \<open>textToKey\<close> is \<open>nameToKey\<close> of the first
  line, and the text with first line \<open>!!!\<close> and second line \<open>Hello\<close> gets the key
  \<open>unknown\<close>.
\<close>

theorem textToKey_placeholder_is_unknown:
  "textToKey t = nameToKey (firstLine t)
   \<and> normalizeName (firstLine (''!!!'' @ [CHR 0x0A] @ ''Hello'')) = []
   \<and> textToKey (''!!!'' @ [CHR 0x0A] @ ''Hello'') = ''unknown''"
proof -
  have "textToKey t = nameToKey (firstLine t)"
    by (simp add: textToKey_def Let_def nameToKey_nonempty)
  moreover have "normalizeName (firstLine (''!!!'' @ [CHR 0x0A] @ ''Hello'')) = []"
    by code_simp
  moreover have "textToKey (''!!!'' @ [CHR 0x0A] @ ''Hello'') = ''unknown''"
    by code_simp
  ultimately show ?thesis by blast
qed

text \<open>
  C6. The claim is that every node gets a key distinct from the keys of all earlier
  nodes. The texts \<open>Save\<close>, \<open>Save\<close>, \<open>Save 2\<close> (no path) get the keys \<open>save\<close>, \<open>save_2\<close>,
  \<open>save_2\<close>: the suffixed key of the second node is the base key of the third, which
  \<open>usedKeys\<close> has not seen. The flat map has two entries for three nodes, and the text
  of the second node is overwritten.
\<close>

theorem buildFlatMap_suffix_collision:
  "assignedKeys
     [\<lparr>nodeText = ''Save'', nodePath = [], nodeId = ''1:1''\<rparr>,
      \<lparr>nodeText = ''Save'', nodePath = [], nodeId = ''1:2''\<rparr>,
      \<lparr>nodeText = ''Save 2'', nodePath = [], nodeId = ''1:3''\<rparr>]
     = [''save'', ''save_2'', ''save_2'']
   \<and> buildFlatMap
     [\<lparr>nodeText = ''Save'', nodePath = [], nodeId = ''1:1''\<rparr>,
      \<lparr>nodeText = ''Save'', nodePath = [], nodeId = ''1:2''\<rparr>,
      \<lparr>nodeText = ''Save 2'', nodePath = [], nodeId = ''1:3''\<rparr>]
     = [(''save'', ''Save''), (''save_2'', ''Save 2'')]"
  by code_simp

lemma length_keyTrace: "length (keyTrace ns u) = length ns"
  by (induction ns arbitrary: u) (auto simp: Let_def split: prod.splits)

lemma keyTrace_append:
  "keyTrace (xs @ ys) u = keyTrace xs u @ keyTrace ys (usedAfter xs u)"
  by (induction xs arbitrary: u) (auto simp: Let_def split: prod.splits)

lemma assignKey_other: "b \<noteq> k \<Longrightarrow> snd (assignKey u b) k = u k"
  by (auto simp: assignKey_def Let_def split: option.splits)

lemma usedAfter_other: "\<forall>n \<in> set xs. baseKey n \<noteq> k \<Longrightarrow> usedAfter xs u k = u k"
  by (induction xs arbitrary: u) (auto simp: assignKey_other)

lemma keyTrace_step:
  assumes "\<forall>n \<in> set xs. baseKey n \<noteq> k" and "baseKey n = k"
  shows "keyTrace (xs @ n # rest) u
         = keyTrace xs u @ fst (assignKey (usedAfter xs u) k)
             # keyTrace rest (snd (assignKey (usedAfter xs u) k))"
  using assms by (simp add: keyTrace_append split: prod.splits)

lemma map_of_obj_define: "map_of (obj_define k v ps) = (map_of ps)(k \<mapsto> v)"
  by (induction ps) auto

lemma map_of_obj_set:
  "k' \<noteq> ''__proto__'' \<Longrightarrow> map_of (obj_set k v ps) k' = ((map_of ps)(k \<mapsto> v)) k'"
  by (auto simp: obj_set_def map_of_obj_define)

lemma map_of_assign:
  "k' \<noteq> ''__proto__'' \<Longrightarrow> map_of (assign t es) k' = (map_of t ++ map_of (rev es)) k'"
proof (induction es arbitrary: t)
  case Nil
  then show ?case by (simp add: assign_def)
next
  case (Cons e es)
  obtain k v where e: "e = (k, v)" by (cases e)
  have "assign t (e # es) = assign (obj_set k v t) es"
    by (simp add: assign_def e)
  then show ?case
    using Cons.prems
    by (auto simp: Cons.IH map_of_obj_set e map_add_def split: option.splits)
qed

text \<open>No generated key begins with an underscore, so none is \<open>__proto__\<close>.\<close>

lemma last_dropWhile: "dropWhile P xs \<noteq> [] \<Longrightarrow> last (dropWhile P xs) = last xs"
  by (induction xs) (auto split: if_splits)

lemma hd_stripUnderscores:
  assumes "stripUnderscores s \<noteq> []"
  shows "hd (stripUnderscores s) \<noteq> CHR ''_''"
proof -
  define zs where "zs = dropWhile (\<lambda>c. c = CHR ''_'') s"
  define ws where "ws = dropWhile (\<lambda>c. c = CHR ''_'') (rev zs)"
  have r: "stripUnderscores s = rev ws"
    by (simp add: stripUnderscores_def zs_def ws_def)
  with assms have ne: "ws \<noteq> []" by simp
  then have zs: "zs \<noteq> []" by (auto simp: ws_def)
  have "hd (rev ws) = last ws"
    by (rule hd_rev)
  also have "\<dots> = last (rev zs)"
    using ne unfolding ws_def by (rule last_dropWhile)
  also have "\<dots> = hd zs"
    by (rule last_rev)
  finally have "hd (stripUnderscores s) = hd zs" by (simp only: r)
  moreover have "hd zs \<noteq> CHR ''_''"
    using zs hd_dropWhile [of "\<lambda>c. c = CHR ''_''" s] by (simp add: zs_def)
  ultimately show ?thesis by simp
qed

lemma hd_nameToKey: "nameToKey name \<noteq> [] \<and> hd (nameToKey name) \<noteq> CHR ''_''"
proof (cases "normalizeName name = []")
  case True
  then show ?thesis by (simp add: nameToKey_def)
next
  case False
  then have "stripUnderscores (collapseSpaces (replaceSpecial (trim (toLowerCase name)))) \<noteq> []"
    by (auto simp: normalizeName_def substring0_def)
  from hd_stripUnderscores [OF this] False show ?thesis
    by (simp add: nameToKey_def normalizeName_def substring0_def MAX_KEY_LENGTH_def)
qed

lemma hd_joinWith:
  "xs \<noteq> [] \<Longrightarrow> hd xs \<noteq> [] \<Longrightarrow> joinWith sep xs \<noteq> [] \<and> hd (joinWith sep xs) = hd (hd xs)"
  by (induction sep xs rule: joinWith.induct) auto

lemma hd_pathToPrefix: "pathToPrefix p \<noteq> [] \<Longrightarrow> hd (pathToPrefix p) \<noteq> CHR ''_''"
proof -
  let ?ks = "filter (\<lambda>k. k \<noteq> ''unknown'' \<and> length k > 0)
               (map nameToKey (drop (length p - MAX_PATH_DEPTH) p))"
  assume a: "pathToPrefix p \<noteq> []"
  then have ne: "?ks \<noteq> []" by (auto simp: pathToPrefix_def)
  then have "hd ?ks \<in> set ?ks" by (rule hd_in_set)
  then obtain name where k: "hd ?ks = nameToKey name" "hd ?ks \<noteq> []" by auto
  with ne have "hd (joinWith ''.'' ?ks) = hd (nameToKey name)"
    using hd_joinWith [of ?ks "''.''"] by simp
  with hd_nameToKey [of name] show ?thesis by (simp add: pathToPrefix_def)
qed

lemma baseKey_not_proto: "baseKey n \<noteq> ''__proto__''"
proof -
  have leaf: "textToKey (nodeText n) \<noteq> [] \<and> hd (textToKey (nodeText n)) \<noteq> CHR ''_''"
    using hd_nameToKey [of "firstLine (nodeText n)"]
    by (simp add: textToKey_def Let_def)
  have "baseKey n \<noteq> [] \<and> hd (baseKey n) \<noteq> CHR ''_''"
  proof (cases "pathToPrefix (nodePath n) = []")
    case True
    with leaf show ?thesis by (simp add: baseKey_def Let_def)
  next
    case False
    with hd_pathToPrefix [OF False] show ?thesis by (simp add: baseKey_def Let_def)
  qed
  then show ?thesis by auto
qed

lemma buildLoop_assign:
  "buildLoop ns u flat = assign flat (zip (keyTrace ns u) (map nodeText ns))"
  by (induction ns arbitrary: u flat) (auto simp: assign_def Let_def split: prod.splits)

lemma map_of_zip_unique:
  assumes "length ts = length ks" and "i < length ks" and "ks ! i = k"
    and "\<forall>j < length ks. ks ! j = k \<longrightarrow> j = i"
  shows "map_of (rev (zip ks ts)) k = Some (ts ! i)"
proof -
  have "(ks ! i, ts ! i) \<in> set (zip ks ts)"
    using assms(1,2) by (simp add: set_zip) blast
  then have "(k, ts ! i) \<in> set (rev (zip ks ts))"
    using assms(3) by simp
  then have "k \<in> fst ` set (rev (zip ks ts))" by force
  then have "k \<in> dom (map_of (rev (zip ks ts)))"
    by (simp only: dom_map_of_conv_image_fst)
  then obtain v where v: "map_of (rev (zip ks ts)) k = Some v"
    by blast
  then have "(k, v) \<in> set (zip ks ts)"
    using map_of_SomeD by fastforce
  then obtain j where "j < length ks" "ks ! j = k" "ts ! j = v"
    using assms(1) by (auto simp: set_zip)
  with assms(4) have "v = ts ! i" by auto
  with v show ?thesis by simp
qed

lemma showNat_2: "showNat (Suc (Suc 0)) = ''2''"
  by code_simp

lemma showNat_3: "showNat (Suc (Suc (Suc 0))) = ''3''"
  by code_simp

text \<open>
  C5. When exactly three nodes of the input have the base key \<open>k\<close>, they are assigned the
  keys \<open>k\<close>, \<open>k_2\<close> and \<open>k_3\<close> in input order; and when no other node is assigned one of
  these three keys, the flat map binds them to the texts of the three nodes.
\<close>

theorem buildFlatMap_collision_numbering:
  assumes nodes: "nodes = xs @ n1 # ys @ n2 # zs @ n3 # ws"
    and base: "baseKey n1 = k" "baseKey n2 = k" "baseKey n3 = k"
    and others: "\<forall>n \<in> set (xs @ ys @ zs @ ws). baseKey n \<noteq> k"
    and idx: "i1 = length xs" "i2 = length xs + 1 + length ys"
      "i3 = length xs + 1 + length ys + 1 + length zs"
    and fresh: "\<forall>j < length nodes. j \<notin> {i1, i2, i3}
                  \<longrightarrow> assignedKeys nodes ! j \<notin> {k, k @ ''_2'', k @ ''_3''}"
  shows "assignedKeys nodes ! i1 = k
       \<and> assignedKeys nodes ! i2 = k @ ''_2''
       \<and> assignedKeys nodes ! i3 = k @ ''_3''
       \<and> map_of (buildFlatMap nodes) k = Some (nodeText n1)
       \<and> map_of (buildFlatMap nodes) (k @ ''_2'') = Some (nodeText n2)
       \<and> map_of (buildFlatMap nodes) (k @ ''_3'') = Some (nodeText n3)"
proof -
  let ?keys = "assignedKeys nodes"
  have ox: "\<forall>n \<in> set xs. baseKey n \<noteq> k" and oy: "\<forall>n \<in> set ys. baseKey n \<noteq> k"
    and oz: "\<forall>n \<in> set zs. baseKey n \<noteq> k"
    using others by auto
  define u0 where "u0 = usedAfter xs Map.empty"
  define u1 where "u1 = snd (assignKey u0 k)"
  define u1' where "u1' = usedAfter ys u1"
  define u2 where "u2 = snd (assignKey u1' k)"
  define u2' where "u2' = usedAfter zs u2"
  define u3 where "u3 = snd (assignKey u2' k)"
  have u0k: "u0 k = None"
    using ox by (simp add: u0_def usedAfter_other)
  then have a1: "fst (assignKey u0 k) = k" and u1k: "u1 k = Some 1"
    by (simp_all add: assignKey_def u1_def)
  have u1'k: "u1' k = Some 1"
    using oy u1k by (simp add: u1'_def usedAfter_other)
  then have a2: "fst (assignKey u1' k) = k @ ''_2''" and u2k: "u2 k = Some 2"
    by (simp_all add: assignKey_def u2_def Let_def showNat_2)
  have u2'k: "u2' k = Some 2"
    using oz u2k by (simp add: u2'_def usedAfter_other)
  then have a3: "fst (assignKey u2' k) = k @ ''_3''"
    by (simp add: assignKey_def Let_def showNat_3 numeral_3_eq_3)
  have keys: "?keys = keyTrace xs Map.empty @ k # keyTrace ys u1 @ (k @ ''_2'')
                      # keyTrace zs u2 @ (k @ ''_3'') # keyTrace ws u3"
    unfolding assignedKeys_def nodes
    by (simp add: keyTrace_step [OF ox base(1)] keyTrace_step [OF oy base(2)]
          keyTrace_step [OF oz base(3)] a1 a2 a3
          u0_def [symmetric] u1_def [symmetric] u1'_def [symmetric] u2_def [symmetric]
          u2'_def [symmetric] u3_def [symmetric])
  have k1: "?keys ! i1 = k"
    by (simp add: keys idx nth_append length_keyTrace)
  have k2: "?keys ! i2 = k @ ''_2''"
    by (simp add: keys idx nth_append length_keyTrace)
  have k3: "?keys ! i3 = k @ ''_3''"
    by (simp add: keys idx nth_append length_keyTrace)
  have len: "length ?keys = length nodes"
    by (simp add: assignedKeys_def length_keyTrace)
  have lt: "i1 < length nodes" "i2 < length nodes" "i3 < length nodes"
    by (simp_all add: nodes idx)
  have t: "map nodeText nodes ! i1 = nodeText n1" "map nodeText nodes ! i2 = nodeText n2"
    "map nodeText nodes ! i3 = nodeText n3"
    by (simp_all add: nodes idx nth_append)
  have ne: "i1 \<noteq> i2" "i1 \<noteq> i3" "i2 \<noteq> i3"
    by (simp_all add: idx)
  have flat: "map_of (buildFlatMap nodes) key = map_of (rev (zip ?keys (map nodeText nodes))) key"
    if "key \<noteq> ''__proto__''" for key
    using that by (simp add: buildFlatMap_def assignedKeys_def buildLoop_assign map_of_assign)
  have plain: "k \<noteq> ''__proto__''" "k @ ''_2'' \<noteq> ''__proto__''" "k @ ''_3'' \<noteq> ''__proto__''"
  proof -
    show "k \<noteq> ''__proto__''"
      using baseKey_not_proto [of n1] base(1) by simp
    show "k @ ''_2'' \<noteq> ''__proto__''"
    proof
      assume "k @ ''_2'' = ''__proto__''"
      then have "last (k @ ''_2'') = last ''__proto__''" by (rule arg_cong)
      then show False by simp
    qed
    show "k @ ''_3'' \<noteq> ''__proto__''"
    proof
      assume "k @ ''_3'' = ''__proto__''"
      then have "last (k @ ''_3'') = last ''__proto__''" by (rule arg_cong)
      then show False by simp
    qed
  qed
  have uniq: "\<forall>j < length ?keys. ?keys ! j = ?keys ! i \<longrightarrow> j = i" if "i \<in> {i1, i2, i3}" for i
  proof (intro allI impI)
    fix j assume j: "j < length ?keys" "?keys ! j = ?keys ! i"
    have "?keys ! i \<in> {k, k @ ''_2'', k @ ''_3''}"
      using that k1 k2 k3 by auto
    with j fresh len have "j \<in> {i1, i2, i3}" by auto
    with j(2) that k1 k2 k3 show "j = i" by auto
  qed
  have look: "map_of (buildFlatMap nodes) (?keys ! i) = Some (map nodeText nodes ! i)"
    if "i \<in> {i1, i2, i3}" for i
  proof -
    have "i < length ?keys" using that lt len by auto
    moreover have "length (map nodeText nodes) = length ?keys" by (simp add: len)
    ultimately have "map_of (rev (zip ?keys (map nodeText nodes))) (?keys ! i)
        = Some (map nodeText nodes ! i)"
      using uniq [OF that] by (intro map_of_zip_unique) auto
    moreover have "?keys ! i \<noteq> ''__proto__''"
      using that k1 k2 k3 plain by auto
    ultimately show ?thesis using flat by simp
  qed
  have m1: "map_of (buildFlatMap nodes) k = Some (nodeText n1)"
    using look [of i1] by (simp only: k1 t) simp
  have m2: "map_of (buildFlatMap nodes) (k @ ''_2'') = Some (nodeText n2)"
    using look [of i2] by (simp only: k2 t) simp
  have m3: "map_of (buildFlatMap nodes) (k @ ''_3'') = Some (nodeText n3)"
    using look [of i3] by (simp only: k3 t) simp
  from k1 k2 k3 m1 m2 m3 show ?thesis by blast
qed

theorem buildFlatMap_collision_numbering_witness:
  "assignedKeys
     [\<lparr>nodeText = ''Save'', nodePath = [''Footer''], nodeId = ''1:1''\<rparr>,
      \<lparr>nodeText = ''Cancel'', nodePath = [''Footer''], nodeId = ''1:2''\<rparr>,
      \<lparr>nodeText = ''Save'', nodePath = [''Footer''], nodeId = ''1:3''\<rparr>,
      \<lparr>nodeText = ''save!'', nodePath = [''Footer''], nodeId = ''1:4''\<rparr>] ! 0 = ''footer.save''
   \<and> assignedKeys
     [\<lparr>nodeText = ''Save'', nodePath = [''Footer''], nodeId = ''1:1''\<rparr>,
      \<lparr>nodeText = ''Cancel'', nodePath = [''Footer''], nodeId = ''1:2''\<rparr>,
      \<lparr>nodeText = ''Save'', nodePath = [''Footer''], nodeId = ''1:3''\<rparr>,
      \<lparr>nodeText = ''save!'', nodePath = [''Footer''], nodeId = ''1:4''\<rparr>] ! 2 = ''footer.save_2''
   \<and> assignedKeys
     [\<lparr>nodeText = ''Save'', nodePath = [''Footer''], nodeId = ''1:1''\<rparr>,
      \<lparr>nodeText = ''Cancel'', nodePath = [''Footer''], nodeId = ''1:2''\<rparr>,
      \<lparr>nodeText = ''Save'', nodePath = [''Footer''], nodeId = ''1:3''\<rparr>,
      \<lparr>nodeText = ''save!'', nodePath = [''Footer''], nodeId = ''1:4''\<rparr>] ! 3 = ''footer.save_3''
   \<and> map_of (buildFlatMap
     [\<lparr>nodeText = ''Save'', nodePath = [''Footer''], nodeId = ''1:1''\<rparr>,
      \<lparr>nodeText = ''Cancel'', nodePath = [''Footer''], nodeId = ''1:2''\<rparr>,
      \<lparr>nodeText = ''Save'', nodePath = [''Footer''], nodeId = ''1:3''\<rparr>,
      \<lparr>nodeText = ''save!'', nodePath = [''Footer''], nodeId = ''1:4''\<rparr>]) ''footer.save_3''
       = Some ''save!''"
proof -
  let ?a = "\<lparr>nodeText = ''Save'', nodePath = [''Footer''], nodeId = ''1:1''\<rparr>"
  let ?b = "\<lparr>nodeText = ''Cancel'', nodePath = [''Footer''], nodeId = ''1:2''\<rparr>"
  let ?c = "\<lparr>nodeText = ''Save'', nodePath = [''Footer''], nodeId = ''1:3''\<rparr>"
  let ?d = "\<lparr>nodeText = ''save!'', nodePath = [''Footer''], nodeId = ''1:4''\<rparr>"
  have b: "baseKey ?a = ''footer.save''" "baseKey ?c = ''footer.save''"
    "baseKey ?d = ''footer.save''" "baseKey ?b = ''footer.cancel''"
    by code_simp+
  have keys: "assignedKeys [?a, ?b, ?c, ?d]
      = [''footer.save'', ''footer.cancel'', ''footer.save_2'', ''footer.save_3'']"
    by code_simp
  have others: "\<forall>n \<in> set ([] @ [?b] @ [] @ []). baseKey n \<noteq> ''footer.save''"
    by (simp add: b)
  have fresh: "\<forall>j < length [?a, ?b, ?c, ?d]. j \<notin> {0, 2, 3}
      \<longrightarrow> assignedKeys [?a, ?b, ?c, ?d] ! j
            \<notin> {''footer.save'', ''footer.save'' @ ''_2'', ''footer.save'' @ ''_3''}"
    unfolding keys by (auto simp: less_Suc_eq)
  from buildFlatMap_collision_numbering [where xs = "[]" and ys = "[?b]" and zs = "[]"
      and ws = "[]" and ?n1.0 = ?a and ?n2.0 = ?c and ?n3.0 = ?d and k = "''footer.save''"
      and nodes = "[?a, ?b, ?c, ?d]" and ?i1.0 = 0 and ?i2.0 = 2 and ?i3.0 = 3,
      OF _ b(1) b(2) b(3) others _ _ _ fresh]
  have "assignedKeys [?a, ?b, ?c, ?d] ! 0 = ''footer.save''
       \<and> assignedKeys [?a, ?b, ?c, ?d] ! 2 = ''footer.save'' @ ''_2''
       \<and> assignedKeys [?a, ?b, ?c, ?d] ! 3 = ''footer.save'' @ ''_3''
       \<and> map_of (buildFlatMap [?a, ?b, ?c, ?d]) ''footer.save'' = Some (nodeText ?a)
       \<and> map_of (buildFlatMap [?a, ?b, ?c, ?d]) (''footer.save'' @ ''_2'') = Some (nodeText ?c)
       \<and> map_of (buildFlatMap [?a, ?b, ?c, ?d]) (''footer.save'' @ ''_3'') = Some (nodeText ?d)"
    by simp
  then show ?thesis by simp
qed

section \<open>Properties of the tree operations\<close>

text \<open>
  C1. The claim is that \<open>setNestedKey\<close> demotes a string found at an intermediate segment
  into a \<open>_value\<close> child, as \<open>flatToNested\<close> does. Setting \<open>a\<close> to \<open>x\<close> and then \<open>a.b\<close> to
  \<open>y\<close> in the empty tree gives \<open>{a: {b: "y"}}\<close>: the string \<open>x\<close> is replaced by an empty
  object and lost, where \<open>flatToNested\<close> on the same entries keeps it under \<open>_value\<close>.
\<close>

theorem setNestedKey_discards_leaf:
  "setNestedKey [] ''a'' ''x'' pristine = Inr ([(''a'', Str ''x'')], pristine)
   \<and> setNestedKey [(''a'', Str ''x'')] ''a.b'' ''y'' pristine
       = Inr ([(''a'', Obj [(''b'', Str ''y'')])], pristine)
   \<and> flatToNested [(''a'', ''x''), (''a.b'', ''y'')] pristine
       = Inr ([(''a'', Obj [(''_value'', Str ''x''), (''b'', Str ''y'')])], pristine)"
  by code_simp

text \<open>
  C2. The claim is that \<open>flatToNested\<close> keeps every entry of the flat map as a string leaf,
  in every insertion order. With the longer key first, \<open>a.b\<close> then \<open>a\<close>, the final
  assignment replaces the object under \<open>a\<close> by the string \<open>x\<close>: the entry \<open>a.b\<close> is gone
  from the tree and from the flat map read back from it.
\<close>

theorem flatToNested_overwrites_subtree:
  "flatToNested [(''a.b'', ''y''), (''a'', ''x'')] pristine = Inr ([(''a'', Str ''x'')], pristine)
   \<and> nestedToFlat [(''a'', Str ''x'')] [] = [(''a'', ''x'')]"
  by code_simp


lemma map_of_pristine:
  "map_of pristine k =
     (if k = ''__proto__'' then Some Accessor
      else if k \<in> set objectPrototypeNames then Some Builtin else None)"
  by (simp add: pristine_def objectPrototypeNames_def)

lemma inherited_pristine:
  "k \<noteq> ''__proto__'' \<Longrightarrow>
     inherited pristine k = (if k \<in> set objectPrototypeNames then Function else Undefined)"
  by (simp add: inherited_def map_of_pristine)

lemma setProp_pristine:
  "k \<noteq> ''__proto__'' \<Longrightarrow> setProp pristine k v current = obj_define k v current"
  by (simp add: setProp_def map_of_pristine)





text \<open>
  Writes that reach \<open>Object.prototype\<close>. A key below \<open>__proto__\<close> is stored on
  \<open>Object.prototype\<close> and leaves the tree empty; the next entry reads the stored string
  as an inherited one and demotes it into the tree. Below a built-in member, the member is
  replaced by an object. An object assigned to \<open>__proto__\<close> of \<open>Object.prototype\<close>
  itself throws.
\<close>

lemma walks_through_prototype:
  "flatToNested [(''__proto__.polluted'', ''v''), (''polluted.x'', ''w'')] pristine
     = Inr ([(''polluted'', Obj [(''_value'', Str ''v''), (''x'', Str ''w'')])],
            obj_define ''polluted'' (Assigned (Str ''v'')) pristine)"
  "setNestedKey [] ''__proto__.toString.x'' ''v'' pristine
     = Inr ([], obj_define ''toString'' (Assigned (Obj [(''x'', Str ''v'')])) pristine)"
  "flatToNested [(''__proto__.__proto__.x'', ''v'')] pristine = Inl TypeError"
  "removeNestedKey [] ''__proto__.__proto__'' pristine = ([], obj_delete ''__proto__'' pristine)"
  by code_simp+

section \<open>Properties of the conversion between flat maps and trees\<close>

subsection \<open>split and join\<close>

lemma splitOn_nonempty: "splitOn c s \<noteq> []"
  by (induction s) (auto split: list.splits)

lemma joinWith_Cons: "ys \<noteq> [] \<Longrightarrow> joinWith sep (x # ys) = x @ sep @ joinWith sep ys"
  by (cases ys) auto

lemma join_split: "joinWith [c] (splitOn c s) = s"
proof (induction s)
  case Nil
  then show ?case by simp
next
  case (Cons x xs)
  show ?case
  proof (cases "x = c")
    case True
    then show ?thesis
      using Cons by (simp add: joinWith_Cons splitOn_nonempty)
  next
    case False
    obtain y ys where sp: "splitOn c xs = y # ys"
      using splitOn_nonempty [of c xs] by (cases "splitOn c xs") auto
    with False Cons show ?thesis
      by (cases ys) auto
  qed
qed

lemma splitOn_inj: "splitOn c s = splitOn c t \<Longrightarrow> s = t"
  by (metis join_split)

lemma splitOn_hd_empty:
  "splitOn c s = [] # p \<Longrightarrow> p \<noteq> [] \<Longrightarrow> take 1 s = [c]"
  by (cases s) (auto split: if_splits list.splits)

lemma fkPath_nonempty: "pre \<noteq> [] \<Longrightarrow> fkPath pre p = joinWith ''.'' (pre # p)"
proof (induction p arbitrary: pre)
  case Nil
  then show ?case by simp
next
  case (Cons k p)
  have "fkPath pre (k # p) = joinWith ''.'' ((pre @ ''.'' @ k) # p)"
    using Cons by (simp add: fullKey_def)
  also have "\<dots> = joinWith ''.'' (pre # k # p)"
    by (cases p) auto
  finally show ?case .
qed

lemma fkPath_segments:
  assumes "take 1 s \<noteq> ''.''"
  shows "fkPath [] (segments s) = s"
proof -
  obtain k p where sp: "splitOn (CHR ''.'') s = k # p"
    using splitOn_nonempty [of "CHR ''.''" s] by (cases "splitOn (CHR ''.'') s") auto
  have js: "joinWith ''.'' (k # p) = s"
    using join_split [of "CHR ''.''" s] sp by simp
  show ?thesis
  proof (cases "p = []")
    case True
    with sp js show ?thesis by (simp add: segments_def fullKey_def)
  next
    case False
    with sp assms have "k \<noteq> []"
      using splitOn_hd_empty [of "CHR ''.''" s p] by auto
    with sp js show ?thesis
      by (simp add: segments_def fullKey_def fkPath_nonempty)
  qed
qed

subsection \<open>nestedToFlat reads the leaves\<close>

lemma set_obj_define: "set (obj_define k v ps) \<subseteq> insert (k, v) (set ps)"
  by (induction ps) (auto split: if_splits)

lemma keys_obj_define: "fst ` set (obj_define k v ps) = insert k (fst ` set ps)"
  by (induction k v ps rule: obj_define.induct) auto

lemma distinct_obj_define: "distinct (map fst ps) \<Longrightarrow> distinct (map fst (obj_define k v ps))"
  by (induction ps) (auto simp: keys_obj_define)

lemma obj_set_plain: "k \<noteq> ''__proto__'' \<Longrightarrow> obj_set k v ps = obj_define k v ps"
  by (simp add: obj_set_def)

lemma obj_set_proto: "''__proto__'' \<notin> fst ` set ps \<Longrightarrow> obj_set ''__proto__'' v ps = ps"
  by (simp add: obj_set_def map_of_eq_None_iff)

lemma set_obj_set: "set (obj_set k v ps) \<subseteq> insert (k, v) (set ps)"
  using set_obj_define [of k v ps] by (auto simp: obj_set_def)

lemma keys_obj_set_mono: "fst ` set ps \<subseteq> fst ` set (obj_set k v ps)"
  by (auto simp: obj_set_def keys_obj_define)

lemma keys_obj_set: "k \<noteq> ''__proto__'' \<Longrightarrow> fst ` set (obj_set k v ps) = insert k (fst ` set ps)"
  by (simp add: obj_set_def keys_obj_define)

lemma distinct_obj_set: "distinct (map fst ps) \<Longrightarrow> distinct (map fst (obj_set k v ps))"
  by (simp add: obj_set_def distinct_obj_define)

lemma set_assign: "set (assign t es) \<subseteq> set t \<union> set es"
proof (induction es arbitrary: t)
  case Nil
  then show ?case by (simp add: assign_def)
next
  case (Cons e es)
  obtain k v where e: "e = (k, v)" by (cases e)
  have "assign t (e # es) = assign (obj_set k v t) es" by (simp add: assign_def e)
  with Cons [of "obj_set k v t"] set_obj_set [of k v t] e show ?case by auto
qed

lemma keys_assign: "fst ` set t \<union> (fst ` set es - {''__proto__''}) \<subseteq> fst ` set (assign t es)"
proof (induction es arbitrary: t)
  case Nil
  then show ?case by (simp add: assign_def)
next
  case (Cons e es)
  obtain k v where e: "e = (k, v)" by (cases e)
  have a: "assign t (e # es) = assign (obj_set k v t) es" by (simp add: assign_def e)
  have ih: "fst ` set (obj_set k v t) \<union> (fst ` set es - {''__proto__''})
      \<subseteq> fst ` set (assign (obj_set k v t) es)"
    by (rule Cons)
  have m: "fst ` set t \<subseteq> fst ` set (obj_set k v t)"
    by (rule keys_obj_set_mono)
  have kk: "k \<in> fst ` set (obj_set k v t)" if "k \<noteq> ''__proto__''"
    using that by (simp add: keys_obj_set)
  show ?case unfolding a
  proof
    fix x assume "x \<in> fst ` set t \<union> (fst ` set (e # es) - {''__proto__''})"
    then consider "x \<in> fst ` set t" | "x = k" "x \<noteq> ''__proto__''"
      | "x \<in> fst ` set es - {''__proto__''}"
      using e by auto
    then show "x \<in> fst ` set (assign (obj_set k v t) es)"
    proof cases
      case 1
      with m ih show ?thesis by blast
    next
      case 2
      with kk ih show ?thesis by blast
    next
      case 3
      with ih show ?thesis by blast
    qed
  qed
qed

lemma distinct_assign: "distinct (map fst t) \<Longrightarrow> distinct (map fst (assign t es))"
proof (induction es arbitrary: t)
  case Nil
  then show ?case by (simp add: assign_def)
next
  case (Cons e es)
  obtain k v where e: "e = (k, v)" by (cases e)
  have "assign t (e # es) = assign (obj_set k v t) es" by (simp add: assign_def e)
  with Cons e show ?case by (simp add: distinct_obj_set)
qed

lemma toFlat_distinct:
  "distinct (map fst flat) \<Longrightarrow> distinct (map fst (toFlatEntries ps pre flat))"
  "distinct (map fst flat) \<Longrightarrow> distinct (map fst (toFlatValue n fk flat))"
  by (induction ps pre flat and n fk flat rule: toFlatEntries_toFlatValue.induct)
     (simp_all add: distinct_obj_set distinct_assign)

lemma toFlat_sound:
  "(key, v) \<in> set (toFlatEntries ps pre flat)
     \<Longrightarrow> (key, v) \<in> set flat \<or> (\<exists>p. (p, v) \<in> leavesT ps \<and> fkPath pre p = key)"
  "(key, v) \<in> set (toFlatValue n fk flat)
     \<Longrightarrow> (key, v) \<in> set flat \<or> (\<exists>p. (p, v) \<in> leavesN n \<and> fkPath fk p = key)"
proof (induction ps pre flat and n fk flat rule: toFlatEntries_toFlatValue.induct)
  case (1 pre flat)
  then show ?case by simp
next
  case (2 k n rest pre flat)
  from "2.prems" have "(key, v) \<in> set (toFlatEntries rest pre (toFlatValue n (fullKey pre k) flat))"
    by simp
  from "2.IH"(2) [OF this]
  consider "(key, v) \<in> set (toFlatValue n (fullKey pre k) flat)"
    | p where "(p, v) \<in> leavesT rest" "fkPath pre p = key"
    by auto
  then show ?case
  proof cases
    case 1
    from "2.IH"(1) [OF this] show ?thesis
    proof
      assume "(key, v) \<in> set flat"
      then show ?thesis by simp
    next
      assume "\<exists>p. (p, v) \<in> leavesN n \<and> fkPath (fullKey pre k) p = key"
      then obtain p where "(p, v) \<in> leavesN n" "fkPath (fullKey pre k) p = key" by blast
      then have "(k # p, v) \<in> leavesT ((k, n) # rest)" "fkPath pre (k # p) = key"
        by auto
      then show ?thesis by blast
    qed
  next
    case 2
    then have "(p, v) \<in> leavesT ((k, n) # rest)" by simp
    with 2 show ?thesis by blast
  qed
next
  case (3 s fk flat)
  then show ?case using set_obj_set [of fk s flat] by auto
next
  case (4 ps fk flat)
  from "4.prems" have "(key, v) \<in> set flat \<or> (key, v) \<in> set (toFlatEntries ps fk [])"
    using set_assign [of flat "toFlatEntries ps fk []"] by auto
  then show ?case using "4.IH" by auto
qed

lemma toFlat_keys:
  "fst ` set flat \<union> ({fkPath pre p | p v. (p, v) \<in> leavesT ps} - {''__proto__''})
     \<subseteq> fst ` set (toFlatEntries ps pre flat)"
  "fst ` set flat \<union> ({fkPath fk p | p v. (p, v) \<in> leavesN n} - {''__proto__''})
     \<subseteq> fst ` set (toFlatValue n fk flat)"
proof (induction ps pre flat and n fk flat rule: toFlatEntries_toFlatValue.induct)
  case (1 pre flat)
  then show ?case by simp
next
  case (2 k n rest pre flat)
  show ?case
  proof
    fix key
    assume "key \<in> fst ` set flat
        \<union> ({fkPath pre p | p v. (p, v) \<in> leavesT ((k, n) # rest)} - {''__proto__''})"
    then consider "key \<in> fst ` set flat"
      | p v where "(p, v) \<in> leavesN n" "key = fkPath (fullKey pre k) p" "key \<noteq> ''__proto__''"
      | p v where "(p, v) \<in> leavesT rest" "key = fkPath pre p" "key \<noteq> ''__proto__''"
      by auto
    then show "key \<in> fst ` set (toFlatEntries ((k, n) # rest) pre flat)"
    proof cases
      case 1
      then have "key \<in> fst ` set (toFlatValue n (fullKey pre k) flat)"
        using "2.IH"(1) by blast
      then show ?thesis using "2.IH"(2) by auto
    next
      case 2
      then have "key \<in> fst ` set (toFlatValue n (fullKey pre k) flat)"
        using "2.IH"(1) by blast
      then show ?thesis using "2.IH"(2) by auto
    next
      case 3
      then have "key \<in> fst ` set (toFlatEntries rest pre (toFlatValue n (fullKey pre k) flat))"
        using "2.IH"(2) by blast
      then show ?thesis by simp
    qed
  qed
next
  case (3 s fk flat)
  then show ?case
    using keys_obj_set_mono [of flat fk s] keys_obj_set [of fk s flat] by auto
next
  case (4 ps fk flat)
  have ka: "fst ` set flat \<union> (fst ` set (toFlatEntries ps fk []) - {''__proto__''})
      \<subseteq> fst ` set (assign flat (toFlatEntries ps fk []))"
    by (rule keys_assign)
  show ?case
  proof
    fix key
    assume "key \<in> fst ` set flat
        \<union> ({fkPath fk p | p v. (p, v) \<in> leavesN (Obj ps)} - {''__proto__''})"
    then consider "key \<in> fst ` set flat"
      | p v where "(p, v) \<in> leavesT ps" "key = fkPath fk p" "key \<noteq> ''__proto__''"
      by auto
    then show "key \<in> fst ` set (toFlatValue (Obj ps) fk flat)"
    proof cases
      case 1
      with ka show ?thesis by auto
    next
      case 2
      then have "key \<in> fst ` set (toFlatEntries ps fk [])"
        using "4.IH" by blast
      with 2(3) ka show ?thesis by auto
    qed
  qed
qed

subsection \<open>flatToNested writes the leaves\<close>

lemma obj_define_twice: "obj_define k b (obj_define k a t) = obj_define k b t"
  by (induction k a t rule: obj_define.induct) auto

lemma insertWalk_plain:
  "''__proto__'' \<notin> set keys
     \<Longrightarrow> insertWalk keys v t pristine = Inr (insertPlain keys v t, pristine)"
proof (induction keys v t rule: insertPlain.induct)
  case (1 v t)
  show ?case by simp
next
  case (2 lastKey v t)
  then show ?case by (simp add: setProp_pristine)
next
  case (3 k k' ks v t)
  from "3.prems" have k: "k \<noteq> ''__proto__''" by auto
  from 3 have IH: "insertWalk (k' # ks) v (childOf t k) pristine
      = Inr (insertPlain (k' # ks) v (childOf t k), pristine)" by simp
  show ?case
  proof (cases "map_of t k")
    case None
    with k IH show ?thesis
      by (simp add: getProp_def inherited_pristine setProp_pristine childOf_def
          map_of_obj_define obj_define_twice)
  next
    case (Some n)
    show ?thesis
    proof (cases n)
      case (Str s)
      with Some k IH show ?thesis
        by (simp add: getProp_def setProp_pristine childOf_def map_of_obj_define
            obj_define_twice)
    next
      case (Obj c)
      with Some k IH show ?thesis
        by (simp add: getProp_def childOf_def)
    qed
  qed
qed

lemma insertAll_plain:
  "\<forall>k \<in> fst ` set flat. ''__proto__'' \<notin> set (segments k)
     \<Longrightarrow> insertAll flat t pristine
         = Inr (foldl (\<lambda>nested (dotKey, v). insertPlain (splitOn (CHR ''.'') dotKey) v nested)
                  t flat, pristine)"
proof (induction flat arbitrary: t)
  case Nil
  show ?case by simp
next
  case (Cons e flat)
  obtain k v where e: "e = (k, v)" by (cases e)
  from Cons.prems e have "''__proto__'' \<notin> set (splitOn (CHR ''.'') k)"
    by (simp add: segments_def)
  then have "insertWalk (splitOn (CHR ''.'') k) v t pristine
      = Inr (insertPlain (splitOn (CHR ''.'') k) v t, pristine)"
    by (rule insertWalk_plain)
  moreover from Cons have "insertAll flat (insertPlain (splitOn (CHR ''.'') k) v t) pristine
      = Inr (foldl (\<lambda>nested (dotKey, v). insertPlain (splitOn (CHR ''.'') dotKey) v nested)
               (insertPlain (splitOn (CHR ''.'') k) v t) flat, pristine)"
    by simp
  ultimately show ?case by (simp add: e)
qed

lemma flatToNested_plain:
  "\<forall>k \<in> fst ` set flat. ''__proto__'' \<notin> set (segments k)
     \<Longrightarrow> flatToNested flat pristine = Inr (plainTree flat, pristine)"
  by (simp add: flatToNested_def plainTree_def insertAll_plain)

lemma insertPlain_Cons:
  "ks \<noteq> [] \<Longrightarrow> insertPlain (k # ks) v t = obj_define k (Obj (insertPlain ks v (childOf t k))) t"
  by (cases ks) simp_all

lemma leavesT_hd: "(p, v) \<in> leavesT t \<Longrightarrow> p \<noteq> [] \<and> hd p \<in> fst ` set t"
  by (induction t) (auto simp: image_iff)

lemma leavesT_Cons_iff:
  "wfT t \<Longrightarrow> (k # q, w) \<in> leavesT t \<longleftrightarrow> (\<exists>n. map_of t k = Some n \<and> (q, w) \<in> leavesN n)"
proof (induction t)
  case Nil
  then show ?case by simp
next
  case (Cons e t)
  obtain k' n' where e: "e = (k', n')" by (cases e)
  show ?case
  proof (cases "k' = k")
    case True
    with Cons.prems e have "k \<notin> fst ` set t" by simp
    then have "(k # q, w) \<notin> leavesT t"
      using leavesT_hd [of "k # q" w t] by auto
    with True e show ?thesis by auto
  next
    case False
    with Cons e show ?thesis by auto
  qed
qed

lemma leavesT_obj_define:
  assumes "wfT t"
  shows "leavesT (obj_define k n t)
         = {(p, v) \<in> leavesT t. hd p \<noteq> k} \<union> (\<lambda>(p, v). (k # p, v)) ` leavesN n"
  using assms
proof (induction t)
  case Nil
  then show ?case by simp
next
  case (Cons e t)
  obtain k' n' where e: "e = (k', n')" by (cases e)
  show ?case
  proof (cases "k' = k")
    case True
    with Cons.prems e have "k \<notin> fst ` set t" by simp
    then have "{(p, v) \<in> leavesT t. hd p \<noteq> k} = leavesT t"
      using leavesT_hd by fastforce
    with True e show ?thesis by auto
  next
    case False
    with Cons e show ?thesis by auto
  qed
qed

lemma wfT_obj_define: "wfT t \<Longrightarrow> wfN n \<Longrightarrow> wfT (obj_define k n t)"
  by (induction k n t rule: obj_define.induct) (auto simp: keys_obj_define)

lemma wfT_map_of: "wfT t \<Longrightarrow> map_of t k = Some n \<Longrightarrow> wfN n"
  by (induction t) (auto split: if_splits)

lemma wfT_childOf: "wfT t \<Longrightarrow> wfT (childOf t k)"
  using wfT_map_of [of t k]
  by (auto simp: childOf_def split: option.splits node.splits)

lemma insertPlain_leaves:
  assumes "wfT t" and "p \<noteq> []"
    and "\<forall>(q, w) \<in> leavesT t. \<not> prefix q p \<and> \<not> prefix p q"
  shows "leavesT (insertPlain p v t) = insert (p, v) (leavesT t) \<and> wfT (insertPlain p v t)"
  using assms
proof (induction p arbitrary: t)
  case Nil
  then show ?case by simp
next
  case (Cons k ks)
  have compat: "\<not> prefix q (k # ks)" "\<not> prefix (k # ks) q" if "(q, w) \<in> leavesT t" for q w
    using Cons.prems(3) that by auto
  show ?case
  proof (cases "ks = []")
    case True
    have "hd q \<noteq> k" if "(q, w) \<in> leavesT t" for q w
    proof
      assume "hd q = k"
      moreover have "q \<noteq> []" using that leavesT_hd by blast
      ultimately have "prefix [k] q" by (cases q) auto
      with compat(2) [OF that] True show False by simp
    qed
    then have "{(q, w) \<in> leavesT t. hd q \<noteq> k} = leavesT t" by auto
    with True Cons.prems(1) show ?thesis
      by (simp add: leavesT_obj_define wfT_obj_define)
  next
    case False
    let ?c = "childOf t k"
    have noStr: "map_of t k \<noteq> Some (Str s)" for s
    proof
      assume "map_of t k = Some (Str s)"
      then have "([k], s) \<in> leavesT t"
        using leavesT_Cons_iff [OF Cons.prems(1), of k "[]" s] by simp
      from compat(1) [OF this] show False by simp
    qed
    have child: "(q, w) \<in> leavesT ?c \<longleftrightarrow> (k # q, w) \<in> leavesT t" for q w
    proof (cases "map_of t k")
      case None
      then show ?thesis
        using leavesT_Cons_iff [OF Cons.prems(1), of k q w] by (simp add: childOf_def)
    next
      case (Some n)
      with noStr obtain c where "n = Obj c" by (cases n) auto
      with Some show ?thesis
        using leavesT_Cons_iff [OF Cons.prems(1), of k q w] by (simp add: childOf_def)
    qed
    have "leavesT (insertPlain ks v ?c) = insert (ks, v) (leavesT ?c) \<and> wfT (insertPlain ks v ?c)"
    proof (rule Cons.IH)
      show "wfT ?c" using Cons.prems(1) by (rule wfT_childOf)
      show "ks \<noteq> []" by (rule False)
      show "\<forall>(q, w) \<in> leavesT ?c. \<not> prefix q ks \<and> \<not> prefix ks q"
        using compat child by fastforce
    qed
    then have l: "leavesT (insertPlain ks v ?c) = insert (ks, v) (leavesT ?c)"
      and w: "wfT (insertPlain ks v ?c)" by simp_all
    have split: "leavesT t = {(q, w) \<in> leavesT t. hd q \<noteq> k} \<union> (\<lambda>(q, w). (k # q, w)) ` leavesT ?c"
    proof (intro set_eqI iffI)
      fix x assume x: "x \<in> leavesT t"
      obtain q w where xq: "x = (q, w)" by (cases x)
      show "x \<in> {(q, w) \<in> leavesT t. hd q \<noteq> k} \<union> (\<lambda>(q, w). (k # q, w)) ` leavesT ?c"
      proof (cases "hd q = k")
        case True
        moreover have "q \<noteq> []" using x xq leavesT_hd by blast
        ultimately obtain q' where "q = k # q'" by (cases q) auto
        with x xq child [of q' w] show ?thesis by force
      next
        case False
        with x xq show ?thesis by simp
      qed
    next
      fix x assume "x \<in> {(q, w) \<in> leavesT t. hd q \<noteq> k} \<union> (\<lambda>(q, w). (k # q, w)) ` leavesT ?c"
      then show "x \<in> leavesT t" using child by auto
    qed
    have "leavesT (insertPlain (k # ks) v t)
        = {(q, w) \<in> leavesT t. hd q \<noteq> k} \<union> (\<lambda>(q, w). (k # q, w)) ` insert (ks, v) (leavesT ?c)"
      using Cons.prems(1) by (simp add: insertPlain_Cons [OF False] leavesT_obj_define l)
    also have "\<dots> = insert (k # ks, v) (leavesT t)"
      using split by auto
    finally have "leavesT (insertPlain (k # ks) v t) = insert (k # ks, v) (leavesT t)" .
    moreover have "wfT (insertPlain (k # ks) v t)"
      using Cons.prems(1) w by (simp add: insertPlain_Cons [OF False] wfT_obj_define)
    ultimately show ?thesis by simp
  qed
qed

lemma insert_fold_leaves:
  assumes "wfT t" and "distinct (map fst flat)"
    and "\<forall>k1 \<in> fst ` set flat. \<forall>k2 \<in> fst ` set flat.
           k1 \<noteq> k2 \<longrightarrow> \<not> prefix (segments k1) (segments k2)"
    and "\<forall>k \<in> fst ` set flat. \<forall>(q, w) \<in> leavesT t.
           \<not> prefix q (segments k) \<and> \<not> prefix (segments k) q"
  shows "leavesT (foldl (\<lambda>nested (dotKey, v). insertPlain (splitOn (CHR ''.'') dotKey) v nested) t flat)
         = leavesT t \<union> (\<lambda>(k, v). (segments k, v)) ` set flat"
  using assms
proof (induction flat arbitrary: t)
  case Nil
  then show ?case by simp
next
  case (Cons e flat)
  obtain k v where e: "e = (k, v)" by (cases e)
  let ?t = "insertPlain (segments k) v t"
  have step: "leavesT ?t = insert (segments k, v) (leavesT t) \<and> wfT ?t"
  proof (rule insertPlain_leaves)
    show "wfT t" by (rule Cons.prems(1))
    show "segments k \<noteq> []" by (simp add: segments_def splitOn_nonempty)
    show "\<forall>(q, w) \<in> leavesT t. \<not> prefix q (segments k) \<and> \<not> prefix (segments k) q"
      using Cons.prems(4) e by simp
  qed
  have "leavesT (foldl (\<lambda>nested (dotKey, v). insertPlain (splitOn (CHR ''.'') dotKey) v nested) ?t flat)
         = leavesT ?t \<union> (\<lambda>(k, v). (segments k, v)) ` set flat"
  proof (rule Cons.IH)
    show "wfT ?t" using step by simp
    show "distinct (map fst flat)" using Cons.prems(2) by simp
    show "\<forall>k1 \<in> fst ` set flat. \<forall>k2 \<in> fst ` set flat.
           k1 \<noteq> k2 \<longrightarrow> \<not> prefix (segments k1) (segments k2)"
      using Cons.prems(3) by simp
    have "\<not> prefix q (segments k') \<and> \<not> prefix (segments k') q"
      if k': "k' \<in> fst ` set flat" and q: "(q, w) \<in> leavesT ?t" for k' q w
    proof -
      have ne: "k' \<noteq> k" using Cons.prems(2) k' e by auto
      from q step consider "q = segments k" | "(q, w) \<in> leavesT t" by auto
      then show ?thesis
      proof cases
        case 1
        have kin: "k \<in> fst ` set (e # flat)"
          by (simp add: e)
        have kin': "k' \<in> fst ` set (e # flat)"
          using k' by simp
        from Cons.prems(3) [rule_format, OF kin kin'] ne
        have a: "\<not> prefix (segments k) (segments k')" by simp
        from Cons.prems(3) [rule_format, OF kin' kin] ne
        have b: "\<not> prefix (segments k') (segments k)" by simp
        from a b 1 show ?thesis by simp
      next
        case 2
        with Cons.prems(4) k' show ?thesis by auto
      qed
    qed
    then show "\<forall>k' \<in> fst ` set flat. \<forall>(q, w) \<in> leavesT ?t.
           \<not> prefix q (segments k') \<and> \<not> prefix (segments k') q"
      by blast
  qed
  with step e show ?case by (simp add: segments_def)
qed

lemma plainTree_leaves:
  assumes "distinct (map fst flat)" and "prefixFree flat"
  shows "leavesT (plainTree flat) = (\<lambda>(k, v). (segments k, v)) ` set flat"
proof -
  have "\<not> prefix (segments k1) (segments k2)"
    if "k1 \<in> fst ` set flat" "k2 \<in> fst ` set flat" "k1 \<noteq> k2" for k1 k2
  proof -
    have "segments k1 \<noteq> segments k2"
      using that(3) splitOn_inj by (auto simp: segments_def)
    moreover have "\<not> strict_prefix (segments k1) (segments k2)"
      using assms(2) that(1,2) unfolding prefixFree_def by blast
    ultimately show ?thesis by (simp add: strict_prefix_def)
  qed
  then have "leavesT (foldl (\<lambda>nested (dotKey, v). insertPlain (splitOn (CHR ''.'') dotKey) v nested) [] flat)
         = leavesT [] \<union> (\<lambda>(k, v). (segments k, v)) ` set flat"
    using assms(1) by (intro insert_fold_leaves) auto
  then show ?thesis by (simp add: plainTree_def)
qed

subsection \<open>The round trip\<close>

text \<open>
  C4. The claim is that \<open>nestedToFlat (flatToNested flat)\<close> is \<open>flat\<close> whenever no key
  is a dotted proper prefix of another. It fails for a key that begins with a dot:
  \<open>nestedToFlat\<close> tests \<open>prefix ? ...\<close>, so below the empty first segment the full
  key starts afresh and \<open>.a\<close> comes back as \<open>a\<close>. It also fails for a key with a
  segment \<open>__proto__\<close>, which never becomes a property of the tree. For flat maps
  with distinct keys, none a dotted proper prefix of another, none beginning with a dot
  and none with a segment \<open>__proto__\<close>, \<open>flatToNested\<close> returns a tree, leaves
  \<open>Object.prototype\<close> as it was, and the round trip returns the entries of \<open>flat\<close>:
  the two maps are equal (the order of the entries may differ).
\<close>

theorem nestedToFlat_flatToNested:
  assumes "distinct (map fst flat)" and "prefixFree flat"
    and "\<forall>k \<in> fst ` set flat. plainKey k"
  shows "\<exists>t. flatToNested flat pristine = Inr (t, pristine)
           \<and> map_of (nestedToFlat t []) = map_of flat"
proof -
  let ?t = "plainTree flat"
  let ?r = "nestedToFlat ?t []"
  have tree: "flatToNested flat pristine = Inr (?t, pristine)"
    using assms(3) by (intro flatToNested_plain) (auto simp: plainKey_def)
  have leaves: "leavesT ?t = (\<lambda>(k, v). (segments k, v)) ` set flat"
    using assms(1,2) by (rule plainTree_leaves)
  have fk: "fkPath [] (segments k) = k" if "k \<in> fst ` set flat" for k
    using assms(3) that by (intro fkPath_segments) (auto simp: plainKey_def)
  have dr: "distinct (map fst ?r)"
    by (simp add: nestedToFlat_def toFlat_distinct)
  have sound: "(key, v) \<in> set flat" if "(key, v) \<in> set ?r" for key v
  proof -
    from that obtain p where "(p, v) \<in> leavesT ?t" "fkPath [] p = key"
      using toFlat_sound(1) [of key v ?t "[]" "[]"]
      by (auto simp: nestedToFlat_def)
    with leaves obtain k where "(k, v) \<in> set flat" "fkPath [] (segments k) = key" by auto
    with fk [of k] show ?thesis by force
  qed
  have complete: "(key, v) \<in> set ?r" if "(key, v) \<in> set flat" for key v
  proof -
    from that leaves have "(segments key, v) \<in> leavesT ?t" by force
    moreover have "key \<noteq> ''__proto__''"
    proof
      assume "key = ''__proto__''"
      moreover have "segments ''__proto__'' = [''__proto__'']" by code_simp
      ultimately have "''__proto__'' \<in> set (segments key)" by simp
      with assms(3) that show False by (force simp: plainKey_def)
    qed
    ultimately have "fkPath [] (segments key) \<in> fst ` set ?r"
      using toFlat_keys(1) [of "[]" "[]" ?t] fk [of key] that
      by (force simp: nestedToFlat_def)
    with fk [of key] that have "key \<in> fst ` set ?r" by force
    then obtain v' where v': "(key, v') \<in> set ?r" by auto
    from sound [OF this] that assms(1) have "v' = v"
      using map_of_is_SomeI by fastforce
    with v' show ?thesis by simp
  qed
  have "map_of ?r = map_of flat"
  proof
    fix key
    show "map_of ?r key = map_of flat key"
    proof (cases "map_of flat key")
      case None
      have "map_of ?r key = None"
      proof (rule ccontr)
        assume "map_of ?r key \<noteq> None"
        then obtain v where "map_of ?r key = Some v" by auto
        then have "(key, v) \<in> set ?r" by (rule map_of_SomeD)
        from sound [OF this] assms(1) have "map_of flat key = Some v" by simp
        with None show False by simp
      qed
      with None show ?thesis by simp
    next
      case (Some v)
      then have "(key, v) \<in> set flat" by (rule map_of_SomeD)
      from complete [OF this] dr have "map_of ?r key = Some v" by simp
      with Some show ?thesis by simp
    qed
  qed
  with tree show ?thesis by blast
qed

theorem nestedToFlat_flatToNested_witness:
  "(\<exists>t. flatToNested
          [(''header.title'', ''Home''), (''footer.save'', ''Save''), (''header.nav.home'', ''Start'')]
          pristine = Inr (t, pristine)
      \<and> map_of (nestedToFlat t [])
          = map_of [(''header.title'', ''Home''), (''footer.save'', ''Save''),
                    (''header.nav.home'', ''Start'')])
   \<and> flatToNested
        [(''header.title'', ''Home''), (''footer.save'', ''Save''), (''header.nav.home'', ''Start'')]
        pristine
       = Inr ([(''header'', Obj [(''title'', Str ''Home''), (''nav'', Obj [(''home'', Str ''Start'')])]),
               (''footer'', Obj [(''save'', Str ''Save'')])], pristine)
   \<and> nestedToFlat
        [(''header'', Obj [(''title'', Str ''Home''), (''nav'', Obj [(''home'', Str ''Start'')])]),
         (''footer'', Obj [(''save'', Str ''Save'')])] []
       = [(''header.title'', ''Home''), (''header.nav.home'', ''Start''), (''footer.save'', ''Save'')]"
proof -
  let ?flat = "[(''header.title'', ''Home''), (''footer.save'', ''Save''), (''header.nav.home'', ''Start'')]"
  have d: "distinct (map fst ?flat)" by simp
  have p: "prefixFree ?flat" by code_simp
  have k: "\<forall>k \<in> fst ` set ?flat. plainKey k" by code_simp
  have t: "flatToNested ?flat pristine
       = Inr ([(''header'', Obj [(''title'', Str ''Home''), (''nav'', Obj [(''home'', Str ''Start'')])]),
               (''footer'', Obj [(''save'', Str ''Save'')])], pristine)"
    by code_simp
  have r: "nestedToFlat
        [(''header'', Obj [(''title'', Str ''Home''), (''nav'', Obj [(''home'', Str ''Start'')])]),
         (''footer'', Obj [(''save'', Str ''Save'')])] []
       = [(''header.title'', ''Home''), (''header.nav.home'', ''Start''), (''footer.save'', ''Save'')]"
    by code_simp
  note m = nestedToFlat_flatToNested [OF d p k]
  show ?thesis by (intro conjI) (rule m t r)+
qed

theorem nestedToFlat_flatToNested_counterexample:
  "distinct (map fst [(''.a'', ''x'')]) \<and> prefixFree [(''.a'', ''x'')]
   \<and> flatToNested [(''.a'', ''x'')] pristine = Inr ([('''', Obj [(''a'', Str ''x'')])], pristine)
   \<and> nestedToFlat [('''', Obj [(''a'', Str ''x'')])] [] = [(''a'', ''x'')]
   \<and> map_of (nestedToFlat [('''', Obj [(''a'', Str ''x'')])] []) \<noteq> map_of [(''.a'', ''x'')]
   \<and> prefixFree [(''__proto__'', ''x'')]
   \<and> flatToNested [(''__proto__'', ''x'')] pristine = Inr ([], pristine)
   \<and> nestedToFlat [] [] = []"
proof -
  have d: "distinct (map fst [(''.a'', ''x'')])"
    by simp
  have p1: "prefixFree [(''.a'', ''x'')]" and p2: "prefixFree [(''__proto__'', ''x'')]"
    by code_simp+
  have t: "flatToNested [(''.a'', ''x'')] pristine = Inr ([('''', Obj [(''a'', Str ''x'')])], pristine)"
    by code_simp
  have r: "nestedToFlat [('''', Obj [(''a'', Str ''x'')])] [] = [(''a'', ''x'')]"
    by code_simp
  have ne: "map_of (nestedToFlat [('''', Obj [(''a'', Str ''x'')])] []) \<noteq> map_of [(''.a'', ''x'')]"
  proof
    assume "map_of (nestedToFlat [('''', Obj [(''a'', Str ''x'')])] []) = map_of [(''.a'', ''x'')]"
    then have "map_of (nestedToFlat [('''', Obj [(''a'', Str ''x'')])] []) ''a''
        = map_of [(''.a'', ''x'')] ''a''"
      by (rule fun_cong)
    then show False unfolding r by simp
  qed
  have e: "flatToNested [(''__proto__'', ''x'')] pristine = Inr ([], pristine)"
    by code_simp
  have f: "nestedToFlat [] [] = []"
    by code_simp
  show ?thesis by (intro conjI) (rule d p1 t r ne p2 e f)+
qed

section \<open>Properties of the cache diff\<close>

text \<open>
  What \<open>diffFlatMaps\<close> computes for a current map with distinct keys. When no key of either
  map is a name that objects inherit, this is the diff by own keys; and a map diffed
  against itself gives three empty parts.
\<close>

lemma set_obj_define_fresh:
  "k \<notin> fst ` set ps \<Longrightarrow> set (obj_define k v ps) = insert (k, v) (set ps)"
  by (induction k v ps rule: obj_define.induct) auto

lemma set_obj_set_fresh:
  "k \<notin> fst ` set ps \<Longrightarrow>
     set (obj_set k v ps) = (if k = ''__proto__'' then set ps else insert (k, v) (set ps))"
  by (simp add: obj_set_def set_obj_define_fresh map_of_eq_None_iff)

lemma not_inherited_plain: "\<not> hasProperty obj k \<Longrightarrow> k \<noteq> ''__proto__''"
  by (auto simp: hasProperty_def objectPrototypeNames_def)

lemma diff_loop:
  assumes "distinct (map fst current)"
    and "fst ` set a \<inter> fst ` set current = {}" and "fst ` set c \<inter> fst ` set current = {}"
  shows "foldl (\<lambda>(a, c) (key, v).
                     if \<not> hasProperty cached key then (obj_set key v a, c)
                     else if map_of cached key \<noteq> Some v then (a, obj_set key v c)
                     else (a, c)) (a, c) current = (a', c')
         \<Longrightarrow> set a' = set a \<union> {(k, v) \<in> set current. \<not> hasProperty cached k}
           \<and> set c' = set c \<union> {(k, v) \<in> set current. hasProperty cached k
                                   \<and> map_of cached k \<noteq> Some v \<and> k \<noteq> ''__proto__''}"
  using assms
proof (induction current arbitrary: a c)
  case Nil
  then show ?case by simp
next
  case (Cons e current)
  obtain k v where e: "e = (k, v)" by (cases e)
  have ka: "k \<notin> fst ` set a" and kc: "k \<notin> fst ` set c"
    using Cons.prems(3,4) e by auto
  have kcur: "k \<notin> fst ` set current"
    using Cons.prems(2) e by auto
  let ?step = "\<lambda>(a, c) (key, v).
                     if \<not> hasProperty cached key then (obj_set key v a, c)
                     else if map_of cached key \<noteq> Some v then (a, obj_set key v c)
                     else (a, c)"
  consider (add) "\<not> hasProperty cached k"
    | (chg) "hasProperty cached k" "map_of cached k \<noteq> Some v"
    | (same) "hasProperty cached k" "map_of cached k = Some v"
    by blast
  then show ?case
  proof cases
    case add
    then have plain: "k \<noteq> ''__proto__''" by (rule not_inherited_plain)
    have sa: "set (obj_set k v a) = insert (k, v) (set a)"
      using plain by (simp add: set_obj_set_fresh [OF ka])
    have "set a' = set (obj_set k v a) \<union> {(k, v) \<in> set current. \<not> hasProperty cached k}
           \<and> set c' = set c \<union> {(k, v) \<in> set current. hasProperty cached k
                                   \<and> map_of cached k \<noteq> Some v \<and> k \<noteq> ''__proto__''}"
    proof (rule Cons.IH)
      show "foldl ?step (obj_set k v a, c) current = (a', c')"
        using Cons.prems(1) add e by simp
      show "distinct (map fst current)" using Cons.prems(2) by simp
      show "fst ` set (obj_set k v a) \<inter> fst ` set current = {}"
        using Cons.prems(3) kcur by (auto simp: sa)
      show "fst ` set c \<inter> fst ` set current = {}"
        using Cons.prems(4) by auto
    qed
    with add e show ?thesis
      by (auto simp: sa)
  next
    case chg
    have sc: "set (obj_set k v c) = (if k = ''__proto__'' then set c else insert (k, v) (set c))"
      by (rule set_obj_set_fresh [OF kc])
    have "set a' = set a \<union> {(k, v) \<in> set current. \<not> hasProperty cached k}
           \<and> set c' = set (obj_set k v c) \<union> {(k, v) \<in> set current. hasProperty cached k
                                   \<and> map_of cached k \<noteq> Some v \<and> k \<noteq> ''__proto__''}"
    proof (rule Cons.IH)
      show "foldl ?step (a, obj_set k v c) current = (a', c')"
        using Cons.prems(1) chg e by simp
      show "distinct (map fst current)" using Cons.prems(2) by simp
      show "fst ` set a \<inter> fst ` set current = {}"
        using Cons.prems(3) by auto
      show "fst ` set (obj_set k v c) \<inter> fst ` set current = {}"
        using Cons.prems(4) kcur by (auto simp: sc split: if_splits)
    qed
    with chg e show ?thesis
      by (auto simp: sc split: if_splits)
  next
    case same
    have "set a' = set a \<union> {(k, v) \<in> set current. \<not> hasProperty cached k}
           \<and> set c' = set c \<union> {(k, v) \<in> set current. hasProperty cached k
                                   \<and> map_of cached k \<noteq> Some v \<and> k \<noteq> ''__proto__''}"
    proof (rule Cons.IH)
      show "foldl ?step (a, c) current = (a', c')"
        using Cons.prems(1) same e by simp
      show "distinct (map fst current)" using Cons.prems(2) by simp
      show "fst ` set a \<inter> fst ` set current = {}"
        using Cons.prems(3) by auto
      show "fst ` set c \<inter> fst ` set current = {}"
        using Cons.prems(4) by auto
    qed
    with same e show ?thesis by auto
  qed
qed

lemma diffFlatMaps_sets:
  assumes "distinct (map fst current)"
  shows "set (added (diffFlatMaps current cached))
           = {(k, v) \<in> set current. \<not> hasProperty cached k}"
    and "set (changed (diffFlatMaps current cached))
           = {(k, v) \<in> set current. hasProperty cached k \<and> map_of cached k \<noteq> Some v
                \<and> k \<noteq> ''__proto__''}"
    and "removed (diffFlatMaps current cached)
           = filter (\<lambda>key. \<not> hasProperty current key) (map fst cached)"
proof -
  let ?step = "\<lambda>(a, c) (key, v).
                     if \<not> hasProperty cached key then (obj_set key v a, c)
                     else if map_of cached key \<noteq> Some v then (a, obj_set key v c)
                     else (a, c)"
  obtain a' c' where f: "foldl ?step ([], []) current = (a', c')"
    by (cases "foldl ?step ([], []) current")
  from diff_loop [OF assms _ _ f] have "set a' = {(k, v) \<in> set current. \<not> hasProperty cached k}"
    and "set c' = {(k, v) \<in> set current. hasProperty cached k \<and> map_of cached k \<noteq> Some v
                     \<and> k \<noteq> ''__proto__''}"
    by simp_all
  with f show "set (added (diffFlatMaps current cached))
           = {(k, v) \<in> set current. \<not> hasProperty cached k}"
    and "set (changed (diffFlatMaps current cached))
           = {(k, v) \<in> set current. hasProperty cached k \<and> map_of cached k \<noteq> Some v
                \<and> k \<noteq> ''__proto__''}"
    and "removed (diffFlatMaps current cached)
           = filter (\<lambda>key. \<not> hasProperty current key) (map fst cached)"
    by (simp_all add: diffFlatMaps_def Let_def)
qed

lemma diffFlatMaps_own_keys:
  assumes "distinct (map fst current)" and "distinct (map fst cached)"
    and "\<forall>k \<in> fst ` set current \<union> fst ` set cached. k \<notin> set objectPrototypeNames"
  shows "set (added (diffFlatMaps current cached))
           = {(k, v) \<in> set current. k \<notin> fst ` set cached}
       \<and> set (changed (diffFlatMaps current cached))
           = {(k, v) \<in> set current. \<exists>w. (k, w) \<in> set cached \<and> w \<noteq> v}
       \<and> set (removed (diffFlatMaps current cached))
           = fst ` set cached - fst ` set current"
proof -
  have own: "hasProperty cached k \<longleftrightarrow> k \<in> fst ` set cached" if "k \<in> fst ` set current" for k
    using assms(3) that by (auto simp: hasProperty_def)
  have own': "hasProperty current k \<longleftrightarrow> k \<in> fst ` set current" if "k \<in> fst ` set cached" for k
    using assms(3) that by (auto simp: hasProperty_def)
  have "''__proto__'' \<in> set objectPrototypeNames"
    by (simp add: objectPrototypeNames_def)
  then have plain: "k \<noteq> ''__proto__''" if "k \<in> fst ` set current" for k
    using assms(3) that by blast
  have look: "(\<exists>w. (k, w) \<in> set cached \<and> w \<noteq> v)
      \<longleftrightarrow> k \<in> fst ` set cached \<and> map_of cached k \<noteq> Some v" for k v
  proof
    assume "\<exists>w. (k, w) \<in> set cached \<and> w \<noteq> v"
    then obtain w where w: "(k, w) \<in> set cached" "w \<noteq> v" by blast
    then have "map_of cached k = Some w" using assms(2) by simp
    with w show "k \<in> fst ` set cached \<and> map_of cached k \<noteq> Some v" by force
  next
    assume a: "k \<in> fst ` set cached \<and> map_of cached k \<noteq> Some v"
    then obtain w where w: "(k, w) \<in> set cached" by auto
    then have "map_of cached k = Some w" using assms(2) by simp
    with a w show "\<exists>w. (k, w) \<in> set cached \<and> w \<noteq> v" by auto
  qed
  have "set (added (diffFlatMaps current cached)) = {(k, v) \<in> set current. k \<notin> fst ` set cached}"
    unfolding diffFlatMaps_sets(1) [OF assms(1)] using own by force
  moreover have "set (changed (diffFlatMaps current cached))
           = {(k, v) \<in> set current. \<exists>w. (k, w) \<in> set cached \<and> w \<noteq> v}"
  proof -
    have "(hasProperty cached k \<and> map_of cached k \<noteq> Some v \<and> k \<noteq> ''__proto__'')
        \<longleftrightarrow> (\<exists>w. (k, w) \<in> set cached \<and> w \<noteq> v)" if "(k, v) \<in> set current" for k v
    proof -
      from that have "k \<in> fst ` set current" by force
      from own [OF this] plain [OF this] show ?thesis unfolding look by simp
    qed
    then have "{(k, v) \<in> set current. hasProperty cached k \<and> map_of cached k \<noteq> Some v
                  \<and> k \<noteq> ''__proto__''}
        = {(k, v) \<in> set current. \<exists>w. (k, w) \<in> set cached \<and> w \<noteq> v}"
      by blast
    then show ?thesis unfolding diffFlatMaps_sets(2) [OF assms(1)] .
  qed
  moreover have "set (removed (diffFlatMaps current cached)) = fst ` set cached - fst ` set current"
    unfolding diffFlatMaps_sets(3) [OF assms(1)] using own' by auto
  ultimately show ?thesis by blast
qed

lemma diffFlatMaps_self:
  assumes "distinct (map fst m)"
  shows "diffFlatMaps m m = \<lparr>added = [], changed = [], removed = []\<rparr>"
proof -
  have own: "hasProperty m k" if "k \<in> fst ` set m" for k
    using that by (simp add: hasProperty_def)
  have "set (added (diffFlatMaps m m)) = {}"
    unfolding diffFlatMaps_sets(1) [OF assms] using own by force
  moreover have "set (changed (diffFlatMaps m m)) = {}"
    unfolding diffFlatMaps_sets(2) [OF assms] using assms by auto
  moreover have "removed (diffFlatMaps m m) = []"
    unfolding diffFlatMaps_sets(3) [OF assms] using own by (auto simp: filter_empty_conv)
  ultimately show ?thesis by simp
qed

text \<open>
  C3. The claim is that \<open>added\<close> holds the entries of \<open>current\<close> whose keys are absent from
  \<open>cached\<close>. The membership test is \<open>key in cached\<close>, which also finds what every object
  inherits: for the current map \<open>{constructor: "Constructor"}\<close> and the empty cache the
  entry is reported under \<open>changed\<close> and \<open>added\<close> is empty.
\<close>

theorem diffFlatMaps_inherited_name:
  "diffFlatMaps [(''constructor'', ''Constructor'')] []
     = \<lparr>added = [], changed = [(''constructor'', ''Constructor'')], removed = []\<rparr>"
  by code_simp

section \<open>Properties of the translator\<close>

text \<open>
  C8. If the three replies to a batch, the first attempt and both retries, each carry a
  text that \<open>JSON.parse\<close> rejects, \<open>_translateBatch\<close> returns the batch itself, its keys
  with their English values, after exactly three calls, and raises nothing.
\<close>

theorem translateBatch_fallback:
  assumes "\<forall>i<3. \<exists>t. client (calls + i) = Message (Some t) \<and> parse (cleanResponse (trim t)) = None"
  shows "translateBatch parse client batch 0 calls = (Inr (flatToJson batch), calls + 3)"
proof -
  have "(0::nat) < 3" and "(1::nat) < 3" and "(2::nat) < 3" by simp_all
  from this [THEN assms [rule_format]] obtain t0 t1 t2 where
    r0: "client calls = Message (Some t0)" "parse (cleanResponse (trim t0)) = None" and
    r1: "client (calls + 1) = Message (Some t1)" "parse (cleanResponse (trim t1)) = None" and
    r2: "client (calls + 2) = Message (Some t2)" "parse (cleanResponse (trim t2)) = None"
    by auto
  have "translateBatch parse client batch 2 (calls + 2) = (Inr (flatToJson batch), calls + 3)"
    using r2 by (subst translateBatch.simps) (simp add: parseEntries_def)
  then have "translateBatch parse client batch 1 (calls + 1) = (Inr (flatToJson batch), calls + 3)"
    using r1 by (subst translateBatch.simps) (simp add: parseEntries_def add.commute numeral_2_eq_2)
  then show ?thesis
    using r0 by (subst translateBatch.simps) (simp add: parseEntries_def)
qed

theorem translateBatch_fallback_witness:
  "(\<lambda>s. if s = ''{}'' then Some (JObj []) else None)
       (cleanResponse (trim ''Sorry, I cannot help.'')) = (None :: nat json option)
   \<and> translateBatch (\<lambda>s. if s = ''{}'' then Some (JObj []) else None)
        (\<lambda>n. Message (Some ''Sorry, I cannot help.'')) [(''footer.save'', ''Save'')] 0 0
      = (Inr (JObj [(''footer.save'', JStr ''Save'')] :: nat json), 3)"
proof -
  have c: "cleanResponse (trim ''Sorry, I cannot help.'') \<noteq> ''{}''"
    by code_simp
  have h: "\<forall>i<3. \<exists>t. (\<lambda>n. Message (Some ''Sorry, I cannot help.'')) (0 + i) = Message (Some t)
        \<and> (\<lambda>s. if s = ''{}'' then Some (JObj []) else None) (cleanResponse (trim t))
            = (None :: nat json option)"
    using c by simp
  from translateBatch_fallback [OF h, of "[(''footer.save'', ''Save'')]"]
  have "translateBatch (\<lambda>s. if s = ''{}'' then Some (JObj []) else None)
        (\<lambda>n. Message (Some ''Sorry, I cannot help.'')) [(''footer.save'', ''Save'')] 0 0
      = (Inr (JObj [(''footer.save'', JStr ''Save'')] :: nat json), 3)"
    by (simp add: flatToJson_def)
  with c show ?thesis by simp
qed

lemma translateBatch_unfold:
  "translateBatch parse client batch r calls =
     (case attemptOutcome parse (client calls) batch r of
        None \<Rightarrow> translateBatch parse client batch (r + 1) (calls + 1)
      | Some res \<Rightarrow> (res, calls + 1))"
  by (subst translateBatch.simps)
     (simp add: attemptOutcome_def split: reply.splits option.splits prod.splits)

lemma attemptOutcome_retry: "attemptOutcome parse rep batch r = None \<Longrightarrow> r < 2"
  by (auto simp: attemptOutcome_def split: reply.splits option.splits prod.splits if_splits)

lemma translateBatch_calls: "calls < snd (translateBatch parse client batch r calls)"
proof (induction "2 - r" arbitrary: r calls)
  case 0
  then have "attemptOutcome parse (client calls) batch r \<noteq> None"
    using attemptOutcome_retry by fastforce
  then show ?case
    by (subst translateBatch_unfold) auto
next
  case (Suc n)
  show ?case
  proof (cases "attemptOutcome parse (client calls) batch r")
    case None
    have "calls + 1 < snd (translateBatch parse client batch (r + 1) (calls + 1))"
      using Suc.hyps(2) by (intro Suc.hyps(1)) simp
    with None show ?thesis
      by (subst translateBatch_unfold) simp
  next
    case (Some res)
    then show ?thesis
      by (subst translateBatch_unfold) simp
  qed
qed

lemma translateBatch_agree:
  assumes "\<And>i. calls \<le> i \<Longrightarrow> i < snd (translateBatch parse client batch r calls)
             \<Longrightarrow> client' i = client i"
  shows "translateBatch parse client' batch r calls = translateBatch parse client batch r calls"
  using assms
proof (induction "2 - r" arbitrary: r calls)
  case 0
  have c0: "client' calls = client calls"
    using "0.prems" translateBatch_calls [of calls parse client batch r] by simp
  have "attemptOutcome parse (client calls) batch r \<noteq> None"
    using 0 attemptOutcome_retry by fastforce
  then show ?case
    by (subst (1 2) translateBatch_unfold) (auto simp: c0)
next
  case (Suc n)
  have c0: "client' calls = client calls"
    using Suc.prems translateBatch_calls [of calls parse client batch r] by simp
  show ?case
  proof (cases "attemptOutcome parse (client calls) batch r")
    case None
    then have o: "translateBatch parse client batch r calls
        = translateBatch parse client batch (r + 1) (calls + 1)"
      by (subst translateBatch_unfold) simp
    have "translateBatch parse client' batch (r + 1) (calls + 1)
        = translateBatch parse client batch (r + 1) (calls + 1)"
    proof (rule Suc.hyps(1))
      show "n = 2 - (r + 1)" using Suc.hyps(2) by simp
    next
      fix i assume "calls + 1 \<le> i"
        and "i < snd (translateBatch parse client batch (r + 1) (calls + 1))"
      then show "client' i = client i"
        using Suc.prems [of i] o by simp
    qed
    with None o show ?thesis
      by (subst translateBatch_unfold) (simp add: c0)
  next
    case (Some res)
    then show ?thesis
      by (subst (1 2) translateBatch_unfold) (simp add: c0)
  qed
qed

lemma translateStage_unfold:
  "translateStage parse client entries i acc calls =
     (if i < length entries
      then (case translateBatch parse client
                   (fromEntries (take TRANSLATE_BATCH_SIZE (drop i entries))) 0 calls of
              (Inl e, calls') \<Rightarrow> (Inl e, calls')
            | (Inr translated, calls') \<Rightarrow>
                translateStage parse client entries (i + TRANSLATE_BATCH_SIZE)
                  (assign acc (ownEntries translated)) calls')
      else (Inr acc, calls))"
  by (subst translateStage.simps) simp

lemma translateStage_calls:
  "calls \<le> snd (translateStage parse client entries i acc calls)"
proof (induction parse client entries i acc calls rule: translateStage.induct)
  case (1 parse client entries i acc calls)
  show ?case
  proof (cases "i < length entries")
    case False
    then show ?thesis by (subst translateStage_unfold) simp
  next
    case True
    obtain res calls' where b: "translateBatch parse client
        (fromEntries (take TRANSLATE_BATCH_SIZE (drop i entries))) 0 calls = (res, calls')"
      by (cases "translateBatch parse client
        (fromEntries (take TRANSLATE_BATCH_SIZE (drop i entries))) 0 calls")
    have lt: "calls < calls'"
      using translateBatch_calls [of calls parse client _ 0] b by (metis snd_conv)
    show ?thesis
    proof (cases res)
      case (Inl e)
      with True b lt show ?thesis by (subst translateStage_unfold) simp
    next
      case (Inr translated)
      with "1.IH" [OF True b [symmetric] Inr] lt True b show ?thesis
        by (subst translateStage_unfold) simp
    qed
  qed
qed

lemma translateStage_agree:
  assumes "\<And>j. calls \<le> j \<Longrightarrow> j < snd (translateStage parse client entries i acc calls)
             \<Longrightarrow> client' j = client j"
  shows "translateStage parse client' entries i acc calls
       = translateStage parse client entries i acc calls"
  using assms
proof (induction parse client entries i acc calls rule: translateStage.induct)
  case (1 parse client entries i acc calls)
  show ?case
  proof (cases "i < length entries")
    case False
    then show ?thesis by (subst (1 2) translateStage_unfold) simp
  next
    case True
    let ?batch = "fromEntries (take TRANSLATE_BATCH_SIZE (drop i entries))"
    obtain res calls' where b: "translateBatch parse client ?batch 0 calls = (res, calls')"
      by (cases "translateBatch parse client ?batch 0 calls")
    have lt: "calls < calls'"
      using translateBatch_calls [of calls parse client ?batch 0] b by simp
    show ?thesis
    proof (cases res)
      case (Inl e)
      have whole: "translateStage parse client entries i acc calls = (Inl e, calls')"
        using True b Inl by (subst translateStage_unfold) simp
      have "translateBatch parse client' ?batch 0 calls = translateBatch parse client ?batch 0 calls"
        using "1.prems" whole b by (intro translateBatch_agree) simp
      with whole True b Inl show ?thesis
        by (subst translateStage_unfold) simp
    next
      case (Inr translated)
      let ?rest = "translateStage parse client entries (i + TRANSLATE_BATCH_SIZE)
                     (assign acc (ownEntries translated)) calls'"
      have whole: "translateStage parse client entries i acc calls = ?rest"
        using True b Inr by (subst translateStage_unfold) simp
      have le: "calls' \<le> snd ?rest" by (rule translateStage_calls)
      have b': "translateBatch parse client' ?batch 0 calls = translateBatch parse client ?batch 0 calls"
        using "1.prems" whole b le by (intro translateBatch_agree) simp
      have "translateStage parse client' entries (i + TRANSLATE_BATCH_SIZE)
                     (assign acc (ownEntries translated)) calls' = ?rest"
        using "1.prems" whole lt by (intro "1.IH" [OF True b [symmetric] Inr]) simp
      with whole True b b' Inr show ?thesis
        by (subst translateStage_unfold) simp
    qed
  qed
qed

lemma translateFlatMap_result:
  "fst (translateFlatMap parse client fs flatMap targetLang calls) =
     (if hasLangName targetLang then fst (translateStage parse client flatMap 0 [] calls)
      else Inl (UnsupportedLanguage targetLang))"
  by (simp add: translateFlatMap_def split: prod.splits sum.splits)

text \<open>
  C9. Take a run of \<open>translateFlatMap\<close> and a second run whose backend answers the
  translation calls alike but is arbitrary afterwards, on an arbitrary file system. Both
  return the same result, the one the translation loop alone determines: whatever the
  scoring stage meets (a failing call, an unparseable reply, a reply without text, a
  failure of \<open>mkdir\<close> or \<open>writeFile\<close>) neither changes the result nor raises. A scoring
  call that fails or whose reply does not parse yields \<open>null\<close> for every key of its
  batch, and a failed save leaves the confidence file as it was.
\<close>

theorem translateFlatMap_scoring_independent:
  assumes "\<forall>i < snd (translateStage parse client flatMap 0 [] calls). client' i = client i"
  shows "fst (translateFlatMap parse client' fs' flatMap targetLang calls)
           = fst (translateFlatMap parse client fs flatMap targetLang calls)
       \<and> (hasLangName targetLang \<longrightarrow>
            fst (translateFlatMap parse client' fs' flatMap targetLang calls)
              = fst (translateStage parse client flatMap 0 [] calls))
       \<and> (\<forall>enBatch c st. client' c = Throws st \<longrightarrow>
            fst (scoreBatch parse client' enBatch c) = Inr (nullScores enBatch))
       \<and> (\<forall>enBatch c t. client' c = Message (Some t) \<and> parse (cleanResponse (trim t)) = None \<longrightarrow>
            fst (scoreBatch parse client' enBatch c) = Inr (nullScores enBatch))
       \<and> (\<forall>confidenceMap. fst (saveConfidence fs' targetLang confidenceMap) \<noteq> None \<longrightarrow>
            confidenceFile (snd (saveConfidence fs' targetLang confidenceMap))
              = confidenceFile fs')"
proof -
  have "translateStage parse client' flatMap 0 [] calls = translateStage parse client flatMap 0 [] calls"
    using assms by (intro translateStage_agree) simp
  moreover have "confidenceFile (snd (saveConfidence fs' targetLang confidenceMap))
      = confidenceFile fs'"
    if "fst (saveConfidence fs' targetLang confidenceMap) \<noteq> None" for confidenceMap
    using that by (auto simp: saveConfidence_def Let_def split: if_splits sum.splits)
  ultimately show ?thesis
    by (simp add: translateFlatMap_result scoreBatch_def)
qed

theorem translateFlatMap_scoring_independent_witness:
  "fst (translateFlatMap exampleParse exampleClientScoringDown exampleFsReadOnly
          [(''footer.save'', ''Save'')] ''ko'' 0)
     = Inr [(''footer.save'', JStr ''jeojang'')]
   \<and> fst (translateFlatMap exampleParse exampleClient exampleFs
          [(''footer.save'', ''Save'')] ''ko'' 0)
     = Inr [(''footer.save'', JStr ''jeojang'')]
   \<and> fst (scoreBatch exampleParse exampleClientScoringDown [(''footer.save'', ''Save'')] 1)
     = Inr (JObj [(''footer.save'', JNull)])
   \<and> fst (snd (translateFlatMap exampleParse exampleClient exampleFs
          [(''footer.save'', ''Save'')] ''ko'' 0))
     = exampleFs\<lparr>confidenceFile := Content (JObj [(''ko'', JObj [(''footer.save'', JNum 92)])])\<rparr>
   \<and> fst (saveConfidence exampleFsReadOnly ''ko'' [(''footer.save'', JNum 92)]) = Some IoError
   \<and> confidenceFile (snd (saveConfidence exampleFsReadOnly ''ko'' [(''footer.save'', JNum 92)]))
     = Missing"
proof -
  have n: "snd (translateStage exampleParse exampleClient [(''footer.save'', ''Save'')] 0 [] 0) = 1"
    by code_simp
  have h: "\<forall>i < snd (translateStage exampleParse exampleClient [(''footer.save'', ''Save'')] 0 [] 0).
             exampleClientScoringDown i = exampleClient i"
    unfolding n by (simp add: exampleClientScoringDown_def exampleClient_def)
  have ok: "fst (translateFlatMap exampleParse exampleClient exampleFs
          [(''footer.save'', ''Save'')] ''ko'' 0) = Inr [(''footer.save'', JStr ''jeojang'')]"
    by code_simp
  have down: "exampleClientScoringDown 1 = Throws None"
    by (simp add: exampleClientScoringDown_def)
  have nulls: "nullScores [(''footer.save'', ''Save'')] = (JObj [(''footer.save'', JNull)] :: nat json)"
    by code_simp
  have saved: "fst (snd (translateFlatMap exampleParse exampleClient exampleFs
          [(''footer.save'', ''Save'')] ''ko'' 0))
     = exampleFs\<lparr>confidenceFile := Content (JObj [(''ko'', JObj [(''footer.save'', JNum 92)])])\<rparr>"
    by code_simp
  have failed: "fst (saveConfidence exampleFsReadOnly ''ko'' [(''footer.save'', JNum 92)])
      = Some IoError"
    by code_simp
  have missing: "confidenceFile exampleFsReadOnly = Missing"
    by (simp add: exampleFsReadOnly_def)
  from translateFlatMap_scoring_independent [OF h, of exampleFsReadOnly "''ko''" exampleFs]
  have "fst (translateFlatMap exampleParse exampleClientScoringDown exampleFsReadOnly
          [(''footer.save'', ''Save'')] ''ko'' 0)
         = fst (translateFlatMap exampleParse exampleClient exampleFs
          [(''footer.save'', ''Save'')] ''ko'' 0)"
    and "fst (scoreBatch exampleParse exampleClientScoringDown [(''footer.save'', ''Save'')] 1)
         = Inr (nullScores [(''footer.save'', ''Save'')])"
    and "confidenceFile (snd (saveConfidence exampleFsReadOnly ''ko'' [(''footer.save'', JNum 92)]))
         = confidenceFile exampleFsReadOnly"
    using down failed by (blast, blast, simp)
  with ok nulls saved failed missing show ?thesis by simp
qed

end
